theory Spec2Isabelle
  imports Main "HOL-Library.Word"
begin

unbundle bit_operations_syntax

section \<open>Bit arrays\<close>

text \<open>
  The library's bit arrays are JavaScript arrays of 32-bit big-endian words, of which the
  last may be partial: the comment on \<open>bits128ToNum\<close> says so ("input can end in
  partial big-endian word if it is byte aligned"), and \<open>update\<close> reads both
  \<open>data.length\<close> (words) and \<open>bA.bitLength(data)\<close> (bits). An element is modelled
  by the number of bits it carries and its 32-bit pattern, the significant bits on top.
  The bitwise operators of JavaScript work on the 32-bit pattern of their operand and
  return a plain 32-bit integer, so their result is a full word.
\<close>

datatype jsword = JSWord (nbits: nat) (bits32: "32 word")

type_synonym bitArray = "jsword list"

subsection \<open>Bytes\<close>

text \<open>
  The spec speaks of bytes, the code of words. Byte \<open>k\<close> of a word counts from the
  least significant; \<open>bytes4\<close> lists the four bytes of a word in the order they have in
  the bit sequence, most significant first; \<open>to_bytes\<close> is the byte sequence of a
  byte-aligned array, a partial word giving only the bytes it carries.
\<close>

type_synonym byte = "8 word"

definition byte_at :: "nat \<Rightarrow> 32 word \<Rightarrow> byte" where
  "byte_at k v = ucast (drop_bit (8 * k) v)"

definition bytes4 :: "32 word \<Rightarrow> byte list" where
  "bytes4 v = [byte_at 3 v, byte_at 2 v, byte_at 1 v, byte_at 0 v]"

definition word_bytes :: "jsword \<Rightarrow> byte list" where
  "word_bytes w = take (nbits w div 8) (bytes4 (bits32 w))"

definition to_bytes :: "bitArray \<Rightarrow> byte list" where
  "to_bytes a = concat (map word_bytes a)"

text \<open>The number a byte sequence stands for, big-endian and little-endian.\<close>

definition be_int :: "byte list \<Rightarrow> int" where
  "be_int bs = foldl (\<lambda>acc b. acc * 256 + uint b) 0 bs"

definition le_int :: "byte list \<Rightarrow> int" where
  "le_int bs = foldr (\<lambda>b acc. uint b + 256 * acc) bs 0"

text \<open>The \<open>n\<close> low bytes of a number, most significant first and least significant first.\<close>

definition be_bytes :: "nat \<Rightarrow> int \<Rightarrow> byte list" where
  "be_bytes n v = map (\<lambda>i. word_of_int (v div 2 ^ (8 * (n - 1 - i)))) [0..<n]"

definition le_bytes :: "nat \<Rightarrow> int \<Rightarrow> byte list" where
  "le_bytes n v = map (\<lambda>i. word_of_int (v div 2 ^ (8 * i))) [0..<n]"

text \<open>Up to four bytes as one word, the first byte on top, zeros below the last.\<close>

definition be32 :: "byte list \<Rightarrow> 32 word" where
  "be32 bs = word_of_int (be_int bs * 2 ^ (8 * (4 - length bs)))"

text \<open>
  Modelled from the spec: the byte codec of the library is not among the sources. The
  spec takes messages, keys and tags as byte sequences; \<open>of_bytes\<close> packs one into
  big-endian words, four bytes a word, the last word partial when bytes are left over.
\<close>

fun of_bytes :: "byte list \<Rightarrow> bitArray" where
  "of_bytes (a # b # c # d # bs) = JSWord 32 (be32 [a, b, c, d]) # of_bytes bs"
| "of_bytes [] = []"
| "of_bytes bs = [JSWord (8 * length bs) (be32 bs)]"

subsection \<open>sjcl.bitArray\<close>

text \<open>
  Modelled from the spec: \<open>sjcl.bitArray.bitLength\<close> is not among the sources. The
  number of bits of an array: 32 for every word but the last, which counts the bits it
  carries.
\<close>

definition bitLength :: "bitArray \<Rightarrow> nat" where
  "bitLength a = (if a = [] then 0 else 32 * (length a - 1) + nbits (last a))"

text \<open>
  Modelled from the spec: \<open>sjcl.bitArray.concat\<close> is not among the sources. It joins two
  bit sequences into a new array ("prepend any pending buffer to the new input"); the
  arrays here are byte-aligned.
\<close>

definition bA_concat :: "bitArray \<Rightarrow> bitArray \<Rightarrow> bitArray" where
  "bA_concat a1 a2 = of_bytes (to_bytes a1 @ to_bytes a2)"

text \<open>
  Modelled from the spec: \<open>sjcl.bitArray.equal\<close> is not among the sources. Two arrays
  are equal when they have the same length and the same bits. (Its running time is not
  modelled.)
\<close>

definition bA_equal :: "bitArray \<Rightarrow> bitArray \<Rightarrow> bool" where
  "bA_equal a b \<longleftrightarrow> bitLength a = bitLength b \<and> map bits32 a = map bits32 b"

section \<open>Big numbers\<close>

text \<open>
  \<open>sjcl.bn\<close> and the prime field \<open>sjcl.bn.prime.p1305\<close> are not among the sources.
  \<open>poly1305.js\<close> reads and writes the limbs of a number (\<open>ci.limbs[ndx]\<close>), so a number
  is modelled as its array of limbs, least significant first, a limb being worth
  \<open>2 ^ radix\<close> times the one before. The limb width \<open>radix\<close> is a constant of the
  missing code: it is the parameter \<open>rx\<close> of everything below, and the theorems hold for
  every width the shift \<open>1 << (l % radix)\<close> can take. The operations are modelled by what
  the spec asks of the engine: addition and multiplication modulo \<open>2^130 - 5\<close>, results
  kept normalized, a full reduction to the canonical representative, conversion from and
  to bit sequences.
\<close>

type_synonym bn = "int list"

definition bn_val :: "nat \<Rightarrow> bn \<Rightarrow> int" where
  "bn_val rx ls = foldr (\<lambda>l acc. l + 2 ^ rx * acc) ls 0"

text \<open>The \<open>n\<close> low digits of a number in base \<open>2 ^ rx\<close>.\<close>

definition limbs_of :: "nat \<Rightarrow> nat \<Rightarrow> int \<Rightarrow> bn" where
  "limbs_of rx n v = map (\<lambda>i. v div 2 ^ (rx * i) mod 2 ^ rx) [0..<n]"

definition p1305_modulus :: int where
  "p1305_modulus = 2 ^ 130 - 5"

text \<open>The number a bit array stands for, the first word on top.\<close>

definition be_val :: "bitArray \<Rightarrow> int" where
  "be_val a = foldl (\<lambda>acc w. acc * 2 ^ nbits w + uint (drop_bit (32 - nbits w) (bits32 w))) 0 a"

text \<open>
  Modelled from the spec: \<open>fromBits\<close> (of \<open>sjcl.bn\<close>, shared by \<open>p1305\<close>) is not among the
  sources. "Conversion between a field element and a byte/word sequence": the number of
  the bit sequence, in as many limbs as its bits fill, at least one.
\<close>

definition fromBits :: "nat \<Rightarrow> bitArray \<Rightarrow> bn" where
  "fromBits rx bits = limbs_of rx (max 1 ((bitLength bits + rx - 1) div rx)) (be_val bits)"

text \<open>
  Modelled from the spec: \<open>addM\<close> is not among the sources. Addition, limb by limb, the
  shorter number continued with zeros (the reduction modulo \<open>p\<close> is left to \<open>mul\<close> and
  \<open>fullReduce\<close>).
\<close>

fun addM :: "bn \<Rightarrow> bn \<Rightarrow> bn" where
  "addM [] ys = ys"
| "addM xs [] = xs"
| "addM (x # xs) (y # ys) = (x + y) # addM xs ys"

text \<open>
  Modelled from the spec: \<open>cnormalize\<close> is not among the sources. The same number in the
  same count of limbs, "normalized (reduced to a bounded limb range)": every limb but the
  top one a digit, the top one taking what is left.
\<close>

definition cnormalize :: "nat \<Rightarrow> bn \<Rightarrow> bn" where
  "cnormalize rx ls =
     (if ls = [] then []
      else limbs_of rx (length ls - 1) (bn_val rx ls) @ [bn_val rx ls div 2 ^ (rx * (length ls - 1))])"

text \<open>The limbs a number below \<open>2^130\<close> takes.\<close>

definition p1305_limbs :: "nat \<Rightarrow> nat" where
  "p1305_limbs rx = (130 + rx - 1) div rx"

text \<open>
  Modelled from the spec: \<open>mul\<close> of \<open>p1305\<close> is not among the sources. "Multiplication
  defined mod \<open>2^130 - 5\<close>", the product kept normalized.
\<close>

definition p1305_mul :: "nat \<Rightarrow> bn \<Rightarrow> bn \<Rightarrow> bn" where
  "p1305_mul rx a b = limbs_of rx (p1305_limbs rx) ((bn_val rx a * bn_val rx b) mod p1305_modulus)"

text \<open>
  Modelled from the spec: \<open>fullReduce\<close> of \<open>p1305\<close> is not among the sources. "A full
  (canonical) reduction": the representative in \<open>[0, p)\<close>.
\<close>

definition p1305_fullReduce :: "nat \<Rightarrow> bn \<Rightarrow> bn" where
  "p1305_fullReduce rx a = limbs_of rx (p1305_limbs rx) (bn_val rx a mod p1305_modulus)"

text \<open>
  Modelled from the spec: \<open>toBits\<close> of \<open>sjcl.bn\<close> is not among the sources. The low
  \<open>len\<close> bits of the number as a bit array, the most significant first ("low 128 bits
  truncate the 2 extra bits"); \<open>len\<close> is a multiple of 8 here.
\<close>

definition toBits :: "nat \<Rightarrow> nat \<Rightarrow> bn \<Rightarrow> bitArray" where
  "toBits rx len x = of_bytes (be_bytes (len div 8) (bn_val rx x mod 2 ^ len))"

section \<open>poly1305.js\<close>

subsection \<open>Helpers\<close>

text \<open>\<open>1 << k\<close>: JavaScript shifts a 32-bit integer by \<open>k mod 32\<close> and reads the result signed.\<close>

definition shl1 :: "nat \<Rightarrow> int" where
  "shl1 k = sint (push_bit (k mod 32) (1 :: 32 word))"

definition bit129ndx :: "nat \<Rightarrow> nat" where
  "bit129ndx rx = 128 div rx"

definition bit129value :: "nat \<Rightarrow> int" where
  "bit129value rx = shl1 (128 mod rx)"

definition bswap :: "32 word \<Rightarrow> 32 word" where
  "bswap v = drop_bit 24 v OR (drop_bit 8 v AND 0xff00) OR push_bit 8 (v AND 0xff00)
             OR push_bit 24 (v AND 0xff)"

text \<open>\<open>byteswap\<close> works in place; every caller hands it an array made on the spot.\<close>

definition byteswap :: "bitArray \<Rightarrow> bitArray" where
  "byteswap r = map (\<lambda>v. JSWord 32 (bswap (bits32 v))) r"

definition slice :: "'a list \<Rightarrow> nat \<Rightarrow> nat \<Rightarrow> 'a list" where
  "slice a i j = take (j - i) (drop i a)"

text \<open>
  The class argument of \<open>bits128ToNum\<close> selects \<open>p1305.fromBits\<close> or \<open>bn.fromBits\<close>,
  one function of the missing code building the same limbs for both classes.
\<close>

definition bits128ToNum :: "nat \<Rightarrow> bitArray \<Rightarrow> nat \<Rightarrow> bn" where
  "bits128ToNum rx a offset = fromBits rx (rev (byteswap (slice a offset (offset + 4))))"

text \<open>
  \<open>ci.limbs[ndx] = (ci.limbs[ndx] || 0) + v\<close>. An index inside the array adds to the
  limb, the index just past its end appends the limb \<open>v\<close>. A larger index would leave
  a hole in the array, on which the arithmetic of the big numbers is not defined: the
  result is \<open>None\<close>.
\<close>

definition add_limb :: "bn \<Rightarrow> nat \<Rightarrow> int \<Rightarrow> bn option" where
  "add_limb ls ndx v =
     (if ndx < length ls then Some (ls[ndx := ls ! ndx + v])
      else if ndx = length ls then Some (ls @ [v])
      else None)"

subsection \<open>The context\<close>

datatype error = Invalid string

record poly1305 =
  this_r :: bn
  this_s :: bn
  this_h :: bn
  this_buffer :: "bitArray option"

text \<open>\<open>x &= m\<close> on an array element: the element becomes a plain 32-bit integer.\<close>

definition and_assign :: "jsword \<Rightarrow> 32 word \<Rightarrow> jsword" where
  "and_assign w m = JSWord 32 (bits32 w AND m)"

definition clamp_key :: "bitArray \<Rightarrow> bitArray" where
  "clamp_key key =
     (let key = key[0 := and_assign (key ! 0) (NOT 0xf0)];
          key = key[1 := and_assign (key ! 1) (NOT 0x30000f0)];
          key = key[2 := and_assign (key ! 2) (NOT 0x30000f0)];
          key = key[3 := and_assign (key ! 3) (NOT 0x30000f0)]
      in key)"

text \<open>
  The constructor by value: the key array in, the new context and the key array as the
  four \<open>&=\<close> leave it out. (Which array of the caller that is, is the matter of
  \<open>poly1305_new_st\<close> below.)
\<close>

definition poly1305_new :: "nat \<Rightarrow> bitArray \<Rightarrow> error + (poly1305 \<times> bitArray)" where
  "poly1305_new rx key =
     (if 8 \<noteq> length key then Inl (Invalid ''invalid Poly1305 key size'')
      else let key = clamp_key key
           in Inr (\<lparr>this_r = bits128ToNum rx key 0, this_s = bits128ToNum rx key 4,
                    this_h = [0], this_buffer = None\<rparr>, key))"

subsection \<open>update\<close>

text \<open>One round of a block: \<open>h.addM(ci).cnormalize(); h = h.mul(r)\<close>.\<close>

definition absorb :: "nat \<Rightarrow> bn \<Rightarrow> bn \<Rightarrow> bn \<Rightarrow> bn" where
  "absorb rx h ci r = p1305_mul rx (cnormalize rx (addM h ci)) r"

text \<open>
  The loop \<open>for (i = 0; i < l; i += 4)\<close>, from \<open>i\<close> on; it returns the final \<open>i\<close> and
  \<open>h\<close>.
\<close>

function update_loop :: "nat \<Rightarrow> bitArray \<Rightarrow> bn \<Rightarrow> nat \<Rightarrow> nat \<Rightarrow> bn \<Rightarrow> (nat \<times> bn) option" where
  "update_loop rx data r l i h =
     (if i < l then
        (case add_limb (bits128ToNum rx data i) (bit129ndx rx) (bit129value rx) of
           None \<Rightarrow> None
         | Some ci \<Rightarrow> update_loop rx data r l (i + 4) (absorb rx h ci r))
      else Some (i, h))"
  by pat_completeness auto
termination
  by (relation "measure (\<lambda>(rx, data, r, l, i, h). l - i)") auto

text \<open>
  \<open>Math.floor(bA.bitLength(data) / 32) & ~0x3\<close>: the number of full words, rounded down
  to a multiple of four. (\<open>&\<close> works on 32-bit integers, which changes nothing below
  \<open>2^31\<close> words; no engine builds an array that long.)
\<close>

definition full_words :: "bitArray \<Rightarrow> nat" where
  "full_words data = (let n = bitLength data div 32 in n - n mod 4)"

definition update :: "nat \<Rightarrow> poly1305 \<Rightarrow> bitArray \<Rightarrow> poly1305 option" where
  "update rx this data =
     (let data = (case this_buffer this of Some b \<Rightarrow> bA_concat b data | None \<Rightarrow> data);
          this = this\<lparr>this_buffer := None\<rparr>
      in case update_loop rx data (this_r this) (full_words data) 0 (this_h this) of
           None \<Rightarrow> None
         | Some (i, h) \<Rightarrow>
             Some (this\<lparr>this_h := h,
                        this_buffer := (if i < length data then Some (drop i data) else None)\<rparr>))"

subsection \<open>finalize and verify\<close>

text \<open>
  \<open>finalize\<close>, first part: \<open>h = this._h.copy()\<close> and the round of the pending
  block, \<open>if (this._buffer) { ... }\<close>. The copy is the local \<open>h\<close>; no field of
  \<open>this\<close> is assigned anywhere in \<open>finalize\<close>.
\<close>

definition finalize_h :: "nat \<Rightarrow> poly1305 \<Rightarrow> bn option" where
  "finalize_h rx this =
     (let h = this_h this; r = this_r this
      in case this_buffer this of
           None \<Rightarrow> Some h
         | Some data \<Rightarrow>
             (let l = bitLength data
              in case add_limb (bits128ToNum rx data 0) (l div rx) (shl1 (l mod rx)) of
                   None \<Rightarrow> None
                 | Some ci \<Rightarrow> Some (absorb rx h ci r)))"

text \<open>
  Second part: \<open>h = new bn(h.fullReduce()); h.addM(s); return
  byteswap(h.toBits(128)).reverse()\<close>.
\<close>

definition finalize :: "nat \<Rightarrow> poly1305 \<Rightarrow> bitArray option" where
  "finalize rx this =
     (case finalize_h rx this of
        None \<Rightarrow> None
      | Some h \<Rightarrow> Some (rev (byteswap (toBits rx 128 (addM (p1305_fullReduce rx h) (this_s this))))))"

definition verify :: "nat \<Rightarrow> poly1305 \<Rightarrow> bitArray \<Rightarrow> bool option" where
  "verify rx this tag = map_option (\<lambda>t. bA_equal t tag) (finalize rx this)"

subsection \<open>Arrays written in place\<close>

text \<open>
  \<open>byteswap\<close>, \<open>reverse\<close> and \<open>&=\<close> write into the array they are given, so what the
  caller of the constructor holds afterwards depends on which array that is. For this
  question arrays live in a store: a list of arrays in which an array's reference is its
  index, a new array being appended. A reference is always that of an array in the store.
  The functions above say what is computed; the ones below follow the same statements and
  say what is written to arrays as well.
\<close>

type_synonym store = "bitArray list"

definition alloc :: "bitArray \<Rightarrow> store \<Rightarrow> nat \<times> store" where
  "alloc a st = (length st, st @ [a])"

text \<open>\<open>byteswap(r)\<close>: the loop overwrites every element of \<open>r\<close>.\<close>

definition byteswap_st :: "nat \<Rightarrow> store \<Rightarrow> store" where
  "byteswap_st r st = st[r := byteswap (st ! r)]"

text \<open>\<open>Array.prototype.reverse\<close> reverses the array it is called on.\<close>

definition reverse_st :: "nat \<Rightarrow> store \<Rightarrow> store" where
  "reverse_st r st = st[r := rev (st ! r)]"

text \<open>\<open>bits128ToNum\<close>: \<open>a.slice\<close> makes the array that is then swapped and reversed.\<close>

definition bits128ToNum_st :: "nat \<Rightarrow> nat \<Rightarrow> nat \<Rightarrow> store \<Rightarrow> bn \<times> store" where
  "bits128ToNum_st rx a offset st =
     (let (t, st) = alloc (slice (st ! a) offset (offset + 4)) st;
          st = byteswap_st t st;
          st = reverse_st t st
      in (fromBits rx (st ! t), st))"

text \<open>\<open>key[i] &= m\<close>.\<close>

definition and_assign_st :: "nat \<Rightarrow> nat \<Rightarrow> 32 word \<Rightarrow> store \<Rightarrow> store" where
  "and_assign_st key i m st = st[key := (st ! key)[i := and_assign (st ! key ! i) m]]"

text \<open>The constructor, \<open>key\<close> being the reference of the array it is given.\<close>

definition poly1305_new_st :: "nat \<Rightarrow> nat \<Rightarrow> store \<Rightarrow> error + (poly1305 \<times> store)" where
  "poly1305_new_st rx key st =
     (if 8 \<noteq> length (st ! key) then Inl (Invalid ''invalid Poly1305 key size'')
      else let st = and_assign_st key 0 (NOT 0xf0) st;
               st = and_assign_st key 1 (NOT 0x30000f0) st;
               st = and_assign_st key 2 (NOT 0x30000f0) st;
               st = and_assign_st key 3 (NOT 0x30000f0) st;
               (r, st) = bits128ToNum_st rx key 0 st;
               (s, st) = bits128ToNum_st rx key 4 st
           in Inr (\<lparr>this_r = r, this_s = s, this_h = [0], this_buffer = None\<rparr>, st))"

text \<open>
  Called as a plain function: \<open>(new poly1305(key)).update(data).finalize()\<close>. \<open>data\<close> is
  read after the constructor has written the key. \<open>update\<close> and \<open>finalize\<close> are applied
  by value: they write to arrays of their own making only.
\<close>

definition poly1305_call_st :: "nat \<Rightarrow> nat \<Rightarrow> nat \<Rightarrow> store \<Rightarrow> error + (bitArray option \<times> store)" where
  "poly1305_call_st rx key data st =
     (case poly1305_new_st rx key st of
        Inl e \<Rightarrow> Inl e
      | Inr (this, st') \<Rightarrow>
          Inr (case update rx this (st' ! data) of None \<Rightarrow> None | Some this' \<Rightarrow> finalize rx this', st'))"

text \<open>
  \<open>poly1305aes\<close>. The block cipher \<open>new sjcl.cipher.aes(key).encrypt(nonce)\<close> is not
  among the sources: it is the parameter \<open>aes\<close>, a function of the key and the block.
  \<open>r.concat(s)\<close> is \<open>Array.prototype.concat\<close>: a new array of the elements of both.
\<close>

definition poly1305aes_new_st ::
  "nat \<Rightarrow> (bitArray \<Rightarrow> bitArray \<Rightarrow> bitArray) \<Rightarrow> nat \<Rightarrow> nat \<Rightarrow> nat \<Rightarrow> store
    \<Rightarrow> error + (poly1305 \<times> store)" where
  "poly1305aes_new_st rx aes r key nonce st =
     (if 4 \<noteq> length (st ! key) \<or> 4 \<noteq> length (st ! nonce)
      then Inl (Invalid ''invalid Poly1305-AES key/nonce size'')
      else let s = aes (st ! key) (st ! nonce);
               (k, st) = alloc (st ! r @ s) st
           in poly1305_new_st rx k st)"

definition poly1305aes_call_st ::
  "nat \<Rightarrow> (bitArray \<Rightarrow> bitArray \<Rightarrow> bitArray) \<Rightarrow> nat \<Rightarrow> nat \<Rightarrow> nat \<Rightarrow> nat \<Rightarrow> store
    \<Rightarrow> error + (bitArray option \<times> store)" where
  "poly1305aes_call_st rx aes r key nonce data st =
     (if 4 \<noteq> length (st ! key) \<or> 4 \<noteq> length (st ! nonce)
      then Inl (Invalid ''invalid Poly1305-AES key/nonce size'')
      else let s = aes (st ! key) (st ! nonce);
               (k, st) = alloc (st ! r @ s) st
           in poly1305_call_st rx k data st)"

subsection \<open>Objects written in place\<close>

text \<open>
  A context, its big numbers and its arrays are objects: \<open>update\<close> assigns fields of
  \<open>this\<close>, \<open>addM\<close>, \<open>cnormalize\<close> and \<open>fullReduce\<close> change the number they are called
  on, \<open>byteswap\<close> and \<open>reverse\<close> the array. Whether \<open>finalize\<close> leaves the accumulator as
  it was depends on which number \<open>h.addM(ci)\<close> is called on. For this question the heap
  holds the arrays, the numbers and the contexts, each kind in a list in which an
  object's reference is its index, a new object being appended. A context holds the
  references of \<open>_r\<close>, \<open>_s\<close>, \<open>_h\<close> and \<open>_buffer\<close> (none when it is \<open>null\<close>).
\<close>

record poly1305_obj =
  ref_r :: nat
  ref_s :: nat
  ref_h :: nat
  ref_buffer :: "nat option"

record heap =
  arrays :: store
  numbers :: "bn list"
  contexts :: "poly1305_obj list"

definition new_array :: "bitArray \<Rightarrow> heap \<Rightarrow> nat \<times> heap" where
  "new_array a hp = (length (arrays hp), hp\<lparr>arrays := arrays hp @ [a]\<rparr>)"

definition new_number :: "bn \<Rightarrow> heap \<Rightarrow> nat \<times> heap" where
  "new_number n hp = (length (numbers hp), hp\<lparr>numbers := numbers hp @ [n]\<rparr>)"

definition new_context :: "poly1305_obj \<Rightarrow> heap \<Rightarrow> nat \<times> heap" where
  "new_context c hp = (length (contexts hp), hp\<lparr>contexts := contexts hp @ [c]\<rparr>)"

definition write_array :: "nat \<Rightarrow> bitArray \<Rightarrow> heap \<Rightarrow> heap" where
  "write_array a v hp = hp\<lparr>arrays := (arrays hp)[a := v]\<rparr>"

definition write_number :: "nat \<Rightarrow> bn \<Rightarrow> heap \<Rightarrow> heap" where
  "write_number n v hp = hp\<lparr>numbers := (numbers hp)[n := v]\<rparr>"

definition write_context :: "nat \<Rightarrow> poly1305_obj \<Rightarrow> heap \<Rightarrow> heap" where
  "write_context c v hp = hp\<lparr>contexts := (contexts hp)[c := v]\<rparr>"

text \<open>\<open>byteswap\<close> and \<open>reverse\<close> overwrite the array they are given.\<close>

definition byteswap_hp :: "nat \<Rightarrow> heap \<Rightarrow> heap" where
  "byteswap_hp r hp = write_array r (byteswap (arrays hp ! r)) hp"

definition reverse_hp :: "nat \<Rightarrow> heap \<Rightarrow> heap" where
  "reverse_hp r hp = write_array r (rev (arrays hp ! r)) hp"

text \<open>
  Modelled from the spec: which object a method of the missing big-number code writes.
  \<open>poly1305.js\<close> calls \<open>addM\<close>, \<open>cnormalize\<close> and \<open>fullReduce\<close> for what they do to the
  number they are called on (\<open>h.addM(ci).cnormalize();\<close> and \<open>h.addM(s);\<close> drop the
  result; \<open>finalize\<close> is to "work on a COPY of \<open>h\<close>"), and \<open>copy\<close>, \<open>mul\<close>, \<open>fromBits\<close>,
  \<open>new bn(...)\<close> and \<open>toBits\<close> for the object they return. So the first three write
  their receiver and return it; the others write nothing and return a new number
  (\<open>new bn(x)\<close> one with the limbs of \<open>x\<close>, as \<open>x.copy()\<close>), \<open>toBits\<close> a new array. The
  values are those of the functions above.
\<close>

definition fromBits_hp :: "nat \<Rightarrow> nat \<Rightarrow> heap \<Rightarrow> nat \<times> heap" where
  "fromBits_hp rx bits hp = new_number (fromBits rx (arrays hp ! bits)) hp"

definition copy_hp :: "nat \<Rightarrow> heap \<Rightarrow> nat \<times> heap" where
  "copy_hp x hp = new_number (numbers hp ! x) hp"

definition addM_hp :: "nat \<Rightarrow> nat \<Rightarrow> heap \<Rightarrow> heap" where
  "addM_hp x y hp = write_number x (addM (numbers hp ! x) (numbers hp ! y)) hp"

definition cnormalize_hp :: "nat \<Rightarrow> nat \<Rightarrow> heap \<Rightarrow> heap" where
  "cnormalize_hp rx x hp = write_number x (cnormalize rx (numbers hp ! x)) hp"

definition mul_hp :: "nat \<Rightarrow> nat \<Rightarrow> nat \<Rightarrow> heap \<Rightarrow> nat \<times> heap" where
  "mul_hp rx x y hp = new_number (p1305_mul rx (numbers hp ! x) (numbers hp ! y)) hp"

definition fullReduce_hp :: "nat \<Rightarrow> nat \<Rightarrow> heap \<Rightarrow> heap" where
  "fullReduce_hp rx x hp = write_number x (p1305_fullReduce rx (numbers hp ! x)) hp"

definition toBits_hp :: "nat \<Rightarrow> nat \<Rightarrow> nat \<Rightarrow> heap \<Rightarrow> nat \<times> heap" where
  "toBits_hp rx len x hp = new_array (toBits rx len (numbers hp ! x)) hp"

text \<open>
  \<open>bits128ToNum\<close>: \<open>a.slice\<close> makes the array that is swapped and reversed, \<open>fromBits\<close>
  the number.
\<close>

definition bits128ToNum_hp :: "nat \<Rightarrow> nat \<Rightarrow> nat \<Rightarrow> heap \<Rightarrow> nat \<times> heap" where
  "bits128ToNum_hp rx a offset hp =
     (let (t, hp) = new_array (slice (arrays hp ! a) offset (offset + 4)) hp;
          hp = byteswap_hp t hp;
          hp = reverse_hp t hp
      in fromBits_hp rx t hp)"

text \<open>\<open>ci.limbs[ndx] = (ci.limbs[ndx] || 0) + v\<close> writes the limbs of \<open>ci\<close>.\<close>

definition add_limb_hp :: "nat \<Rightarrow> nat \<Rightarrow> int \<Rightarrow> heap \<Rightarrow> heap option" where
  "add_limb_hp ci ndx v hp =
     (case add_limb (numbers hp ! ci) ndx v of
        None \<Rightarrow> None
      | Some ls \<Rightarrow> Some (write_number ci ls hp))"

text \<open>
  \<open>h.addM(ci).cnormalize(); h = h.mul(r)\<close>: the number \<open>h\<close> refers to is written, then
  \<open>h\<close> refers to the new number \<open>mul\<close> returns.
\<close>

definition absorb_hp :: "nat \<Rightarrow> nat \<Rightarrow> nat \<Rightarrow> nat \<Rightarrow> heap \<Rightarrow> nat \<times> heap" where
  "absorb_hp rx h ci r hp =
     (let hp = addM_hp h ci hp;
          hp = cnormalize_hp rx h hp
      in mul_hp rx h r hp)"

text \<open>
  The constructor: the four \<open>&=\<close> on the key array, the two numbers read from it,
  \<open>new p1305(0)\<close>, and the new context holding their references.
\<close>

definition poly1305_new_hp :: "nat \<Rightarrow> nat \<Rightarrow> heap \<Rightarrow> error + (nat \<times> heap)" where
  "poly1305_new_hp rx key hp =
     (if 8 \<noteq> length (arrays hp ! key) then Inl (Invalid ''invalid Poly1305 key size'')
      else let hp = hp\<lparr>arrays := and_assign_st key 0 (NOT 0xf0) (arrays hp)\<rparr>;
               hp = hp\<lparr>arrays := and_assign_st key 1 (NOT 0x30000f0) (arrays hp)\<rparr>;
               hp = hp\<lparr>arrays := and_assign_st key 2 (NOT 0x30000f0) (arrays hp)\<rparr>;
               hp = hp\<lparr>arrays := and_assign_st key 3 (NOT 0x30000f0) (arrays hp)\<rparr>;
               (r, hp) = bits128ToNum_hp rx key 0 hp;
               (s, hp) = bits128ToNum_hp rx key 4 hp;
               (h, hp) = new_number [0] hp
           in Inr (new_context \<lparr>ref_r = r, ref_s = s, ref_h = h, ref_buffer = None\<rparr> hp))"

text \<open>
  The loop of \<open>update\<close>, from \<open>i\<close> on, \<open>h\<close> being the reference the local \<open>h\<close> holds; it
  returns the final \<open>i\<close> and \<open>h\<close> and the heap.
\<close>

function update_loop_hp ::
  "nat \<Rightarrow> nat \<Rightarrow> nat \<Rightarrow> nat \<Rightarrow> nat \<Rightarrow> nat \<Rightarrow> heap \<Rightarrow> (nat \<times> nat \<times> heap) option" where
  "update_loop_hp rx data r l i h hp =
     (if i < l then
        (case bits128ToNum_hp rx data i hp of
           (ci, hp) \<Rightarrow>
             (case add_limb_hp ci (bit129ndx rx) (bit129value rx) hp of
                None \<Rightarrow> None
              | Some hp \<Rightarrow>
                  (case absorb_hp rx h ci r hp of
                     (h, hp) \<Rightarrow> update_loop_hp rx data r l (i + 4) h hp)))
      else Some (i, h, hp))"
  by pat_completeness auto
termination
  by (relation "measure (\<lambda>(rx, data, r, l, i, h, hp). l - i)") auto

text \<open>
  \<open>update\<close>. The local \<open>h\<close> starts as the reference \<open>this._h\<close> holds, so the first round
  writes the number of the accumulator itself. \<open>bA.concat\<close> and \<open>data.slice(i)\<close> return
  new arrays. The fields \<open>_buffer\<close> and \<open>_h\<close> of \<open>this\<close> are assigned.
\<close>

definition update_hp :: "nat \<Rightarrow> nat \<Rightarrow> nat \<Rightarrow> heap \<Rightarrow> heap option" where
  "update_hp rx this data hp =
     (let h = ref_h (contexts hp ! this); r = ref_r (contexts hp ! this);
          (data, hp) =
            (case ref_buffer (contexts hp ! this) of
               Some b \<Rightarrow>
                 (let (d, hp) = new_array (bA_concat (arrays hp ! b) (arrays hp ! data)) hp
                  in (d, write_context this ((contexts hp ! this)\<lparr>ref_buffer := None\<rparr>) hp))
             | None \<Rightarrow> (data, hp));
          l = full_words (arrays hp ! data)
      in case update_loop_hp rx data r l 0 h hp of
           None \<Rightarrow> None
         | Some (i, h, hp) \<Rightarrow>
             (let hp = (if i < length (arrays hp ! data)
                        then (let (b, hp) = new_array (drop i (arrays hp ! data)) hp
                              in write_context this ((contexts hp ! this)\<lparr>ref_buffer := Some b\<rparr>) hp)
                        else hp)
              in Some (write_context this ((contexts hp ! this)\<lparr>ref_h := h\<rparr>) hp)))"

text \<open>
  \<open>finalize\<close>: \<open>h = this._h.copy()\<close>, the round of the pending block, then
  \<open>h = new bn(h.fullReduce()); h.addM(s); return byteswap(h.toBits(128)).reverse()\<close>. It
  returns the reference of the tag's array.
\<close>

definition finalize_hp :: "nat \<Rightarrow> nat \<Rightarrow> heap \<Rightarrow> (nat \<times> heap) option" where
  "finalize_hp rx this hp =
     (let (h, hp) = copy_hp (ref_h (contexts hp ! this)) hp;
          r = ref_r (contexts hp ! this); s = ref_s (contexts hp ! this)
      in case (case ref_buffer (contexts hp ! this) of
                 None \<Rightarrow> Some (h, hp)
               | Some data \<Rightarrow>
                   (let l = bitLength (arrays hp ! data);
                        (ci, hp) = bits128ToNum_hp rx data 0 hp
                    in case add_limb_hp ci (l div rx) (shl1 (l mod rx)) hp of
                         None \<Rightarrow> None
                       | Some hp \<Rightarrow> Some (absorb_hp rx h ci r hp))) of
           None \<Rightarrow> None
         | Some (h, hp) \<Rightarrow>
             (let hp = fullReduce_hp rx h hp;
                  (h, hp) = copy_hp h hp;
                  hp = addM_hp h s hp;
                  (t, hp) = toBits_hp rx 128 h hp;
                  hp = byteswap_hp t hp;
                  hp = reverse_hp t hp
              in Some (t, hp)))"

text \<open>\<open>verify\<close>: \<open>tag\<close> is the reference of the caller's array.\<close>

definition verify_hp :: "nat \<Rightarrow> nat \<Rightarrow> nat \<Rightarrow> heap \<Rightarrow> (bool \<times> heap) option" where
  "verify_hp rx this tag hp =
     (case finalize_hp rx this hp of
        None \<Rightarrow> None
      | Some (t, hp) \<Rightarrow> Some (bA_equal (arrays hp ! t) (arrays hp ! tag), hp))"

section \<open>Notions the claims are stated with\<close>

text \<open>
  The number a block of \<open>L\<close> bytes stands for, as \<open>update\<close> (\<open>L = 16\<close>) and
  \<open>finalize\<close> (\<open>L < 16\<close>) build it from the block's words: the limbs of
  \<open>bits128ToNum\<close>, with \<open>1 << (8L % radix)\<close> added to limb \<open>8L / radix\<close>.
\<close>

definition block_ci :: "nat \<Rightarrow> byte list \<Rightarrow> bn option" where
  "block_ci rx blk =
     add_limb (bits128ToNum rx (of_bytes blk) 0) (8 * length blk div rx) (shl1 (8 * length blk mod rx))"

text \<open>The rounds of all full 16-byte blocks of a byte sequence, in order.\<close>

function absorb_blocks :: "nat \<Rightarrow> bn \<Rightarrow> bn \<Rightarrow> byte list \<Rightarrow> bn option" where
  "absorb_blocks rx r h bs =
     (if length bs < 16 then Some h
      else case block_ci rx (take 16 bs) of
             None \<Rightarrow> None
           | Some ci \<Rightarrow> absorb_blocks rx r (absorb rx h ci r) (drop 16 bs))"
  by pat_completeness auto
termination
  by (relation "measure (\<lambda>(rx, r, h, bs). length bs)") auto

text \<open>The bytes after the last full block.\<close>

definition rest :: "byte list \<Rightarrow> byte list" where
  "rest bs = drop (16 * (length bs div 16)) bs"

definition pending :: "poly1305 \<Rightarrow> byte list" where
  "pending this = (case this_buffer this of None \<Rightarrow> [] | Some b \<Rightarrow> to_bytes b)"

text \<open>
  The buffer of a context is either absent or the words of one to fifteen bytes: what the
  constructor and \<open>update\<close> leave behind.
\<close>

definition buffer_ok :: "poly1305 \<Rightarrow> bool" where
  "buffer_ok this =
     (case this_buffer this of
        None \<Rightarrow> True
      | Some b \<Rightarrow> b = of_bytes (to_bytes b) \<and> 0 < length (to_bytes b) \<and> length (to_bytes b) < 16)"

text \<open>
  The round of the spec for a block of \<open>L\<close> bytes: the little-endian number of the
  block plus \<open>2^(8L)\<close>, added to \<open>h\<close> modulo \<open>p\<close>, then the sum times \<open>r\<close> modulo
  \<open>p\<close>. For a full block \<open>2^(8L)\<close> is \<open>2^128\<close>.
\<close>

definition spec_round :: "int \<Rightarrow> int \<Rightarrow> byte list \<Rightarrow> int" where
  "spec_round r h blk =
     ((h + (le_int blk + 2 ^ (8 * length blk))) mod p1305_modulus * r) mod p1305_modulus"

function spec_blocks :: "int \<Rightarrow> int \<Rightarrow> byte list \<Rightarrow> int" where
  "spec_blocks r h bs =
     (if length bs < 16 then h else spec_blocks r (spec_round r h (take 16 bs)) (drop 16 bs))"
  by pat_completeness auto
termination
  by (relation "measure (\<lambda>(r, h, bs). length bs)") auto

text \<open>A number seen as little-endian 32-bit words: word \<open>i\<close>.\<close>

definition le_word32 :: "int \<Rightarrow> nat \<Rightarrow> int" where
  "le_word32 v i = v div 2 ^ (32 * i) mod 2 ^ 32"

text \<open>Repeated calls of \<open>update\<close>, one per chunk.\<close>

fun updates :: "nat \<Rightarrow> poly1305 \<Rightarrow> bitArray list \<Rightarrow> poly1305 option" where
  "updates rx this [] = Some this"
| "updates rx this (d # ds) =
     (case update rx this d of None \<Rightarrow> None | Some this' \<Rightarrow> updates rx this' ds)"

text \<open>
  The context a reference stands for in a heap: the numbers and the buffer its fields
  refer to.
\<close>

definition the_context :: "heap \<Rightarrow> nat \<Rightarrow> poly1305" where
  "the_context hp this =
     (let c = contexts hp ! this
      in \<lparr>this_r = numbers hp ! ref_r c, this_s = numbers hp ! ref_s c, this_h = numbers hp ! ref_h c,
          this_buffer = map_option (nth (arrays hp)) (ref_buffer c)\<rparr>)"

text \<open>
  A context as the constructor and \<open>update\<close> leave it: its references are of objects of
  the heap, the accumulator is a number of its own, neither \<open>r\<close> nor \<open>s\<close> (\<open>update\<close>
  writes it in place), and the buffer is as \<open>buffer_ok\<close> says.
\<close>

definition context_ok :: "heap \<Rightarrow> nat \<Rightarrow> bool" where
  "context_ok hp this =
     (let c = contexts hp ! this
      in this < length (contexts hp)
         \<and> ref_r c < length (numbers hp) \<and> ref_s c < length (numbers hp) \<and> ref_h c < length (numbers hp)
         \<and> ref_h c \<noteq> ref_r c \<and> ref_h c \<noteq> ref_s c
         \<and> (case ref_buffer c of None \<Rightarrow> True | Some b \<Rightarrow> b < length (arrays hp))
         \<and> buffer_ok (the_context hp this))"

text \<open>
  A sequence of calls on one context, each on the heap the call before left. \<open>Update m\<close>
  is \<open>update\<close> with a new array of the bytes \<open>m\<close>, \<open>Verify t\<close> is \<open>verify\<close> with a new
  array \<open>t\<close>. The answer of \<open>finalize\<close> is what the array it returns holds.
\<close>

datatype call = Update "byte list" | Finalize | Verify bitArray

datatype answer = Tag bitArray | Verdict bool

fun run_hp :: "nat \<Rightarrow> nat \<Rightarrow> call list \<Rightarrow> heap \<Rightarrow> (answer list \<times> heap) option" where
  "run_hp rx this [] hp = Some ([], hp)"
| "run_hp rx this (Update m # cs) hp =
     (case new_array (of_bytes m) hp of
        (data, hp) \<Rightarrow>
          (case update_hp rx this data hp of None \<Rightarrow> None | Some hp \<Rightarrow> run_hp rx this cs hp))"
| "run_hp rx this (Finalize # cs) hp =
     (case finalize_hp rx this hp of
        None \<Rightarrow> None
      | Some (t, hp) \<Rightarrow> map_option (\<lambda>(as, hp'). (Tag (arrays hp ! t) # as, hp')) (run_hp rx this cs hp))"
| "run_hp rx this (Verify tag # cs) hp =
     (case new_array tag hp of
        (tag, hp) \<Rightarrow>
          (case verify_hp rx this tag hp of
             None \<Rightarrow> None
           | Some (b, hp) \<Rightarrow> map_option (\<lambda>(as, hp'). (Verdict b # as, hp')) (run_hp rx this cs hp)))"

text \<open>The bytes a sequence of calls feeds.\<close>

fun fed :: "call list \<Rightarrow> byte list" where
  "fed [] = []"
| "fed (Update m # cs) = m @ fed cs"
| "fed (c # cs) = fed cs"

text \<open>
  The tag of the bytes \<open>acc\<close> on a context: one \<open>update\<close> with all of them, then
  \<open>finalize\<close>. The answers a sequence of calls is due, each computed this way from the
  bytes fed before it.
\<close>

definition tag_of :: "nat \<Rightarrow> poly1305 \<Rightarrow> byte list \<Rightarrow> bitArray option" where
  "tag_of rx this acc =
     (case update rx this (of_bytes acc) of None \<Rightarrow> None | Some this' \<Rightarrow> finalize rx this')"

fun due :: "nat \<Rightarrow> poly1305 \<Rightarrow> byte list \<Rightarrow> call list \<Rightarrow> answer option list" where
  "due rx this acc [] = []"
| "due rx this acc (Update m # cs) = due rx this (acc @ m) cs"
| "due rx this acc (Finalize # cs) = map_option Tag (tag_of rx this acc) # due rx this acc cs"
| "due rx this acc (Verify tag # cs) =
     map_option (\<lambda>t. Verdict (bA_equal t tag)) (tag_of rx this acc) # due rx this acc cs"

text \<open>
  The arrays the constructor makes on the way: the two slices of the key, swapped and
  reversed.
\<close>

definition key_slices :: "bitArray \<Rightarrow> bitArray list" where
  "key_slices key = [rev (byteswap (slice key 0 4)), rev (byteswap (slice key 4 8))]"

section \<open>Bytes, words and digits\<close>

lemma uint_byte_at: "uint (byte_at k v) = uint v div 2 ^ (8 * k) mod 256"
proof -
  have "uint (byte_at k v) = take_bit 8 (drop_bit (8 * k) (uint v))"
    by (simp add: byte_at_def unsigned_ucast_eq unsigned_drop_bit_eq bintr_uint)
  then show ?thesis
    by (simp add: take_bit_eq_mod drop_bit_eq_div)
qed

lemma byte_at_eq: "byte_at k v = word_of_int (uint v div 2 ^ (8 * k))"
  by (simp add: word_uint_eq_iff uint_byte_at uint_word_of_int)

lemma le_bytes_Suc: "le_bytes (Suc n) v = word_of_int v # le_bytes n (v div 256)"
proof -
  have "[0..<Suc n] = 0 # map Suc [0..<n]"
    by (simp add: upt_conv_Cons map_Suc_upt del: upt_Suc)
  moreover have "v div 2 ^ (8 + 8 * x) = v div 256 div 2 ^ (8 * x)" for x
    by (simp add: power_add zdiv_zmult2_eq)
  ultimately show ?thesis
    by (simp add: le_bytes_def comp_def del: upt_Suc) 
qed

lemma le_int_Cons: "le_int (b # bs) = uint b + 256 * le_int bs"
  by (simp add: le_int_def)

lemma le_int_le_bytes: "le_int (le_bytes n v) = v mod 2 ^ (8 * n)"
proof (induction n arbitrary: v)
  case 0
  then show ?case by (simp add: le_bytes_def le_int_def)
next
  case (Suc n)
  have "v mod (256 * 2 ^ (8 * n)) = 256 * (v div 256 mod 2 ^ (8 * n)) + v mod 256"
    by (rule zmod_zmult2_eq) simp
  then show ?case
    by (simp add: le_bytes_Suc le_int_Cons Suc.IH uint_word_of_int power_add)
qed

lemma be_bytes_rev: "be_bytes n v = rev (le_bytes n v)"
  by (rule nth_equalityI) (simp_all add: be_bytes_def le_bytes_def rev_nth)

lemma length_le_bytes: "length (le_bytes n v) = n"
  by (simp add: le_bytes_def)

lemma be_int_append: "be_int (xs @ ys) = be_int xs * 256 ^ length ys + be_int ys"
proof (induction ys rule: rev_induct)
  case Nil
  then show ?case by (simp add: be_int_def)
next
  case (snoc y ys)
  have "be_int ((xs @ ys) @ [y]) = be_int (xs @ ys) * 256 + uint y"
    by (simp add: be_int_def)
  also have "\<dots> = be_int xs * 256 ^ length (ys @ [y]) + (be_int ys * 256 + uint y)"
    by (simp add: snoc.IH algebra_simps)
  also have "be_int ys * 256 + uint y = be_int (ys @ [y])"
    by (simp add: be_int_def)
  finally show ?case by simp
qed

lemma be_int_rev: "be_int (rev bs) = le_int bs"
  by (induction bs) (simp_all add: be_int_append be_int_def le_int_def)

lemma le_int_rev: "le_int (rev bs) = be_int bs"
  using be_int_rev [of "rev bs"] by simp

lemma le_int_nonneg: "0 \<le> le_int bs"
  by (induction bs) (simp_all add: le_int_def)

lemma le_int_bound: "le_int bs < 256 ^ length bs"
proof (induction bs)
  case Nil
  then show ?case by (simp add: le_int_def)
next
  case (Cons b bs)
  have "uint b < 256" using uint_bounded [of b] by simp
  moreover have "le_int bs + 1 \<le> 256 ^ length bs" using Cons.IH by simp
  then have "256 * (le_int bs + 1) \<le> 256 * 256 ^ length bs" by simp
  ultimately show ?case by (simp add: le_int_Cons)
qed

lemma le_bytes_le_int: "le_bytes (length bs) (le_int bs) = bs"
proof (induction bs)
  case Nil
  then show ?case by (simp add: le_bytes_def)
next
  case (Cons b bs)
  have u: "uint (word_of_int k :: byte) = k mod 256" for k
    by (simp add: uint_word_of_int)
  have "uint (word_of_int (uint b + 256 * le_int bs) :: byte) = (uint b + 256 * le_int bs) mod 256"
    by (rule u)
  then have "(word_of_int (uint b + 256 * le_int bs) :: byte) = b"
    using uint_bounded [of b] by (simp add: word_uint_eq_iff)
  moreover have "(uint b + 256 * le_int bs) div 256 = le_int bs"
    using uint_bounded [of b] by simp
  ultimately show ?case
    by (simp add: le_bytes_Suc le_int_Cons Cons.IH)
qed

lemma bytes4_eq: "bytes4 v = be_bytes 4 (uint v)"
  by (simp add: bytes4_def be_bytes_def byte_at_eq numeral_eq_Suc)

lemma be_int_bytes4: "be_int (bytes4 v) = uint v"
proof -
  have "be_int (bytes4 v) = uint v mod 2 ^ 32"
    by (simp add: bytes4_eq be_bytes_rev be_int_rev le_int_le_bytes)
  then show ?thesis
    using uint_bounded [of v] by simp
qed

lemma bytes4_word_of_be_int:
  assumes "length cs = 4"
  shows "bytes4 (word_of_int (be_int cs)) = cs"
proof -
  have b: "be_int cs < 2 ^ 32" "0 \<le> be_int cs"
    using le_int_bound [of "rev cs"] le_int_nonneg [of "rev cs"] assms by (simp_all add: le_int_rev)
  then have "uint (word_of_int (be_int cs) :: 32 word) = le_int (rev cs)"
    by (simp add: uint_word_of_int le_int_rev)
  then have "bytes4 (word_of_int (be_int cs)) = rev (le_bytes (length (rev cs)) (le_int (rev cs)))"
    using assms by (simp add: bytes4_eq be_bytes_rev)
  then show ?thesis
    by (simp only: le_bytes_le_int rev_rev_ident)
qed

lemma be_int_Cons: "be_int (x # xs) = uint x * 256 ^ length xs + be_int xs"
  using be_int_append [of "[x]" xs] by (simp add: be_int_def)

lemma be_int_replicate0: "be_int (replicate k 0) = 0"
  by (induction k) (simp_all add: be_int_Cons, simp add: be_int_def)

lemma be32_pad: "length bs \<le> 4 \<Longrightarrow> be32 bs = word_of_int (be_int (bs @ replicate (4 - length bs) 0))"
  by (simp add: be32_def be_int_append be_int_replicate0 power_mult)

lemma bytes4_be32: "length bs \<le> 4 \<Longrightarrow> bytes4 (be32 bs) = bs @ replicate (4 - length bs) 0"
  by (simp add: be32_pad bytes4_word_of_be_int)

lemma ff00_eq: "(0xff00 :: 32 word) = push_bit 8 (mask 8)"
  by (simp add: mask_eq_exp_minus_1)

lemma ff_eq: "(0xff :: 32 word) = mask 8"
  by (simp add: mask_eq_exp_minus_1)

lemma bit32: "bit (v :: 32 word) n \<Longrightarrow> n < 32"
  using bit_imp_le_length [of v n] by simp

lemma bit_byte_at: "bit (byte_at k v) n \<longleftrightarrow> n < 8 \<and> bit v (8 * k + n)"
  by (auto simp add: byte_at_def bit_simps)

lemma bit_bswap_0: "n < 8 \<Longrightarrow> bit (bswap v) n \<longleftrightarrow> bit v (24 + n)"
  unfolding bswap_def ff00_eq ff_eq
  by (simp only: bit_or_iff bit_and_iff bit_push_bit_iff bit_drop_bit_eq bit_mask_iff possible_bit_word)
     (auto dest: bit32)

lemma bit_bswap_1: "n < 8 \<Longrightarrow> bit (bswap v) (8 + n) \<longleftrightarrow> bit v (16 + n)"
  unfolding bswap_def ff00_eq ff_eq
  by (simp only: bit_or_iff bit_and_iff bit_push_bit_iff bit_drop_bit_eq bit_mask_iff possible_bit_word)
     (auto dest: bit32)

lemma bit_bswap_2: "n < 8 \<Longrightarrow> bit (bswap v) (16 + n) \<longleftrightarrow> bit v (8 + n)"
  unfolding bswap_def ff00_eq ff_eq
  by (simp only: bit_or_iff bit_and_iff bit_push_bit_iff bit_drop_bit_eq bit_mask_iff possible_bit_word)
     (auto dest: bit32)

lemma bit_bswap_3: "n < 8 \<Longrightarrow> bit (bswap v) (24 + n) \<longleftrightarrow> bit v n"
  unfolding bswap_def ff00_eq ff_eq
  by (simp only: bit_or_iff bit_and_iff bit_push_bit_iff bit_drop_bit_eq bit_mask_iff possible_bit_word)
     (auto dest: bit32)

lemma byte_at_bswap_0: "byte_at 0 (bswap v) = byte_at 3 v"
  by (rule bit_word_eqI) (simp add: bit_byte_at bit_bswap_0)

lemma byte_at_bswap_1: "byte_at (Suc 0) (bswap v) = byte_at 2 v"
  by (rule bit_word_eqI) (simp add: bit_byte_at bit_bswap_1)

lemma byte_at_bswap_2: "byte_at 2 (bswap v) = byte_at (Suc 0) v"
  by (rule bit_word_eqI) (simp add: bit_byte_at bit_bswap_2)

lemma byte_at_bswap_3: "byte_at 3 (bswap v) = byte_at 0 v"
  by (rule bit_word_eqI) (simp add: bit_byte_at bit_bswap_3)

lemmas byte_at_bswap = byte_at_bswap_0 byte_at_bswap_1 byte_at_bswap_2 byte_at_bswap_3

lemma bytes4_bswap: "bytes4 (bswap v) = rev (bytes4 v)"
  by (simp add: bytes4_def byte_at_bswap)

lemma length_bytes4: "length (bytes4 v) = 4"
  by (simp add: bytes4_def)

lemma bswap_bswap: "bswap (bswap v) = v"
proof -
  have "be_int (bytes4 (bswap (bswap v))) = be_int (bytes4 v)"
    by (simp add: bytes4_bswap)
  then show ?thesis
    by (simp add: be_int_bytes4 word_uint_eq_iff)
qed

subsection \<open>Packing bytes into words\<close>

lemma to_bytes_Nil: "to_bytes [] = []"
  by (simp add: to_bytes_def)

lemma to_bytes_Cons: "to_bytes (w # ws) = word_bytes w @ to_bytes ws"
  by (simp add: to_bytes_def)

lemma word_bytes_be32: "length bs \<le> 4 \<Longrightarrow> word_bytes (JSWord (8 * length bs) (be32 bs)) = bs"
  by (simp add: word_bytes_def bytes4_be32)

lemma to_bytes_of_bytes: "to_bytes (of_bytes bs) = bs"
proof (induction bs rule: of_bytes.induct)
  case (1 a b c d bs)
  have "word_bytes (JSWord 32 (be32 [a, b, c, d])) = [a, b, c, d]"
    using word_bytes_be32 [of "[a, b, c, d]"] by simp
  with 1 show ?case by (simp add: to_bytes_Cons)
qed (simp_all add: to_bytes_Cons to_bytes_Nil word_bytes_def bytes4_be32)

lemma length_of_bytes: "length (of_bytes bs) = (length bs + 3) div 4"
  by (induction bs rule: of_bytes.induct) simp_all

lemma of_bytes_eq_Nil: "of_bytes bs = [] \<longleftrightarrow> bs = []"
  by (induction bs rule: of_bytes.induct) simp_all

lemma bitLength_of_bytes: "bitLength (of_bytes bs) = 8 * length bs"
proof (induction bs rule: of_bytes.induct)
  case (1 a b c d bs)
  have "bs \<noteq> [] \<Longrightarrow> 0 < (length bs + 3) div 4"
    by (cases bs) simp_all
  with 1 show ?case
    by (cases "of_bytes bs = []") (auto simp add: bitLength_def of_bytes_eq_Nil length_of_bytes)
qed (simp_all add: bitLength_def)

lemma drop_of_bytes: "drop k (of_bytes bs) = of_bytes (drop (4 * k) bs)"
proof (induction bs arbitrary: k rule: of_bytes.induct)
  case (1 a b c d bs)
  have e: "4 + 4 * n = Suc (Suc (Suc (Suc (4 * n))))" for n :: nat by simp
  from 1 show ?case by (cases k) (simp_all add: e)
qed (case_tac [!] k, simp_all)

lemma take_of_bytes: "take k (of_bytes bs) = of_bytes (take (4 * k) bs)"
proof (induction bs arbitrary: k rule: of_bytes.induct)
  case (1 a b c d bs)
  have e: "4 + 4 * n = Suc (Suc (Suc (Suc (4 * n))))" for n :: nat by simp
  from 1 show ?case by (cases k) (simp_all add: e)
qed (case_tac [!] k, simp_all)

lemma slice_of_bytes: "slice (of_bytes bs) i (i + 4) = of_bytes (take 16 (drop (4 * i) bs))"
  by (simp add: slice_def drop_of_bytes take_of_bytes)

lemma full_words_of_bytes: "full_words (of_bytes bs) = 4 * (length bs div 16)"
proof -
  have "8 * length bs div 32 = length bs div 4" by simp
  moreover have "length bs div 4 - length bs div 4 mod 4 = 4 * (length bs div 4 div 4)"
    by (simp add: minus_mod_eq_mult_div)
  moreover have "length bs div 4 div 4 = length bs div 16"
    by (simp add: div_mult2_eq [symmetric])
  ultimately show ?thesis
    by (simp add: full_words_def bitLength_of_bytes Let_def)
qed

lemma bA_concat_of_bytes: "bA_concat (of_bytes xs) (of_bytes ys) = of_bytes (xs @ ys)"
  by (simp add: bA_concat_def to_bytes_of_bytes)

subsection \<open>Limbs\<close>

lemma bn_val_Nil: "bn_val rx [] = 0"
  by (simp add: bn_val_def)

lemma bn_val_Cons: "bn_val rx (l # ls) = l + 2 ^ rx * bn_val rx ls"
  by (simp add: bn_val_def)

lemma bn_val_append: "bn_val rx (xs @ ys) = bn_val rx xs + 2 ^ (rx * length xs) * bn_val rx ys"
  by (induction xs) (simp_all add: bn_val_Nil bn_val_Cons power_add algebra_simps)

lemma limbs_of_Suc: "limbs_of rx (Suc n) v = (v mod 2 ^ rx) # limbs_of rx n (v div 2 ^ rx)"
proof -
  have "[0..<Suc n] = 0 # map Suc [0..<n]"
    by (simp add: upt_conv_Cons map_Suc_upt del: upt_Suc)
  moreover have "v div 2 ^ (rx + rx * x) = v div 2 ^ rx div 2 ^ (rx * x)" for x
    by (simp add: power_add zdiv_zmult2_eq)
  ultimately show ?thesis
    by (simp add: limbs_of_def comp_def del: upt_Suc)
qed

lemma length_limbs_of: "length (limbs_of rx n v) = n"
  by (simp add: limbs_of_def)

lemma bn_val_limbs_of: "bn_val rx (limbs_of rx n v) = v mod 2 ^ (rx * n)"
proof (induction n arbitrary: v)
  case 0
  then show ?case by (simp add: limbs_of_def bn_val_Nil)
next
  case (Suc n)
  have "v mod (2 ^ rx * 2 ^ (rx * n)) = 2 ^ rx * (v div 2 ^ rx mod 2 ^ (rx * n)) + v mod 2 ^ rx"
    by (rule zmod_zmult2_eq) simp
  then show ?case
    by (simp add: limbs_of_Suc bn_val_Cons Suc.IH power_add)
qed

lemma bn_val_limbs_of_id:
  assumes "0 \<le> v" "v < 2 ^ (rx * n)"
  shows "bn_val rx (limbs_of rx n v) = v"
  using assms by (simp add: bn_val_limbs_of)

lemma bn_val_addM: "bn_val rx (addM xs ys) = bn_val rx xs + bn_val rx ys"
  by (induction xs ys rule: addM.induct) (simp_all add: bn_val_Nil bn_val_Cons algebra_simps)

lemma length_addM: "length (addM xs ys) = max (length xs) (length ys)"
  by (induction xs ys rule: addM.induct) simp_all

lemma bn_val_cnormalize: "bn_val rx (cnormalize rx ls) = bn_val rx ls"
proof (cases "ls = []")
  case True
  then show ?thesis by (simp add: cnormalize_def)
next
  case False
  define n where "n = length ls - 1"
  define v where "v = bn_val rx ls"
  have "bn_val rx (cnormalize rx ls) = v mod 2 ^ (rx * n) + 2 ^ (rx * n) * (v div 2 ^ (rx * n))"
    using False
    by (simp add: cnormalize_def bn_val_append bn_val_limbs_of length_limbs_of bn_val_Cons bn_val_Nil
        n_def v_def)
  then show ?thesis by (simp add: v_def)
qed

lemma bn_val_update:
  "ndx < length ls \<Longrightarrow> bn_val rx (ls[ndx := ls ! ndx + v]) = bn_val rx ls + 2 ^ (rx * ndx) * v"
proof (induction ls arbitrary: ndx)
  case Nil
  then show ?case by simp
next
  case (Cons l ls)
  then show ?case
    by (cases ndx) (simp_all add: bn_val_Cons power_add algebra_simps)
qed

lemma bn_val_add_limb:
  assumes "add_limb ls ndx v = Some ls'"
  shows "bn_val rx ls' = bn_val rx ls + 2 ^ (rx * ndx) * v"
proof (cases "ndx < length ls")
  case True
  then have "ls' = ls[ndx := ls ! ndx + v]" using assms by (simp add: add_limb_def)
  then show ?thesis using True by (simp add: bn_val_update)
next
  case False
  then have "ndx = length ls" "ls' = ls @ [v]"
    using assms by (simp_all add: add_limb_def split: if_splits)
  then show ?thesis by (simp add: bn_val_append bn_val_Cons bn_val_Nil)
qed

lemma add_limb_Some: "ndx \<le> length ls \<Longrightarrow> \<exists>ls'. add_limb ls ndx v = Some ls'"
  by (simp add: add_limb_def)

lemma shl1_eq:
  assumes "k < 31"
  shows "shl1 k = 2 ^ k"
proof -
  have "(2::int) ^ k < 2 ^ 31"
    using power_strict_increasing [of k 31 "2::int"] assms by simp
  moreover have "- (2 ^ 31) \<le> (2::int) ^ k"
    by (rule order_trans [of _ 0]) simp_all
  moreover have "uint (2 ^ k :: 32 word) = 2 ^ k"
  proof -
    have "(2 ^ k :: 32 word) = word_of_int (2 ^ k)" by simp
    moreover have "(2::int) ^ k < 2 ^ 32"
      using power_strict_increasing [of k 32 "2::int"] assms by simp
    ultimately show ?thesis
      by (simp only: uint_word_of_int) simp
  qed
  ultimately show ?thesis
    using assms by (simp add: shl1_def push_bit_of_1 sint_uint signed_take_bit_int_eq_self)
qed

subsection \<open>Reading a number from words\<close>

lemma be_val_snoc: "be_val (a @ [w]) = be_val a * 2 ^ nbits w + uint (drop_bit (32 - nbits w) (bits32 w))"
  by (simp add: be_val_def)

lemma be_val_full: "be_val (map (JSWord 32) vs) = be_int (concat (map bytes4 vs))"
proof (induction vs rule: rev_induct)
  case Nil
  then show ?case by (simp add: be_val_def be_int_def)
next
  case (snoc v vs)
  have "be_val (map (JSWord 32) vs @ [JSWord 32 v]) = be_val (map (JSWord 32) vs) * 2 ^ 32 + uint v"
    by (simp add: be_val_snoc)
  then show ?case
    by (simp add: snoc.IH be_int_append be_int_bytes4 length_bytes4)
qed

lemma rev_byteswap: "rev (byteswap r) = map (JSWord 32) (map (bswap \<circ> bits32) (rev r))"
  by (simp add: byteswap_def rev_map)

lemma bytes_rev_bswap:
  "concat (map bytes4 (map (bswap \<circ> bits32) (rev r))) = rev (concat (map (bytes4 \<circ> bits32) r))"
  by (induction r) (simp_all add: bytes4_bswap)

lemma be_val_rev_byteswap: "be_val (rev (byteswap r)) = le_int (concat (map (bytes4 \<circ> bits32) r))"
  by (simp only: rev_byteswap be_val_full bytes_rev_bswap be_int_rev)

lemma bitLength_rev_byteswap: "bitLength (rev (byteswap r)) = 32 * length r"
proof (cases r)
  case Nil
  then show ?thesis by (simp add: bitLength_def byteswap_def)
next
  case (Cons w ws)
  then have "last (rev (byteswap r)) = JSWord 32 (bswap (bits32 w))"
    by (simp add: byteswap_def)
  then show ?thesis
    using Cons by (simp add: bitLength_def byteswap_def)
qed

lemma length_all_bytes: "length (concat (map (bytes4 \<circ> bits32) r)) = 4 * length r"
  by (induction r) (simp_all add: length_bytes4)

lemma ceil_mult_ge: "0 < rx \<Longrightarrow> b \<le> rx * ((b + rx - 1) div rx)" for rx b :: nat
proof -
  assume rx: "0 < rx"
  have "b + rx - 1 = (b + rx - 1) div rx * rx + (b + rx - 1) mod rx" by simp
  moreover have "(b + rx - 1) mod rx \<le> rx - 1" using rx by (simp add: less_Suc_eq_le [symmetric])
  ultimately have "b + rx - 1 \<le> (b + rx - 1) div rx * rx + (rx - 1)" by linarith
  then show ?thesis using rx by (simp add: mult.commute)
qed

lemma le_int_lt_pow2: "le_int bs < 2 ^ (8 * length bs)"
  using le_int_bound [of bs] by (simp add: power_mult)

lemma bn_val_fromBits_rev_byteswap:
  assumes "0 < rx"
  shows "bn_val rx (fromBits rx (rev (byteswap r))) = le_int (concat (map (bytes4 \<circ> bits32) r))"
proof -
  let ?bs = "concat (map (bytes4 \<circ> bits32) r)"
  let ?n = "max 1 ((32 * length r + rx - 1) div rx)"
  have "32 * length r \<le> rx * ((32 * length r + rx - 1) div rx)"
    using assms by (rule ceil_mult_ge)
  also have "\<dots> \<le> rx * ?n" by simp
  finally have "(2::int) ^ (32 * length r) \<le> 2 ^ (rx * ?n)"
    by (simp only: power_increasing_iff) 
  moreover have "le_int ?bs < 2 ^ (32 * length r)"
    using le_int_lt_pow2 [of ?bs] by (simp add: length_all_bytes)
  ultimately have "le_int ?bs < 2 ^ (rx * ?n)" by linarith
  then show ?thesis
    by (simp add: fromBits_def be_val_rev_byteswap bitLength_rev_byteswap bn_val_limbs_of_id le_int_nonneg
        del: max.absorb1 max.absorb2 max.absorb3 max.absorb4)
qed

lemma length_fromBits_rev_byteswap:
  "length (fromBits rx (rev (byteswap r))) = max 1 ((32 * length r + rx - 1) div rx)"
  by (simp add: fromBits_def bitLength_rev_byteswap length_limbs_of)

lemma le_int_append: "le_int (xs @ ys) = le_int xs + 256 ^ length xs * le_int ys"
  by (induction xs) (simp_all add: le_int_Cons, simp add: le_int_def)

lemma le_int_replicate0: "le_int (replicate k 0) = 0"
  by (induction k) (simp_all add: le_int_Cons, simp add: le_int_def)

lemma le_int_pad: "le_int (bs @ replicate k 0) = le_int bs"
  by (simp add: le_int_append le_int_replicate0)

lemma all_bytes_of_bytes:
  "concat (map (bytes4 \<circ> bits32) (of_bytes bs)) = bs @ replicate (4 * length (of_bytes bs) - length bs) 0"
proof (induction bs rule: of_bytes.induct)
  case (1 a b c d bs)
  have "bytes4 (be32 [a, b, c, d]) = [a, b, c, d]"
    using bytes4_be32 [of "[a, b, c, d]"] by simp
  with 1 show ?case by simp
qed (simp_all add: bytes4_be32)

lemma le_int_all_bytes_of_bytes: "le_int (concat (map (bytes4 \<circ> bits32) (of_bytes bs))) = le_int bs"
  by (simp only: all_bytes_of_bytes le_int_pad)

lemma bn_val_bits128ToNum:
  "0 < rx \<Longrightarrow> bn_val rx (bits128ToNum rx a i) = le_int (concat (map (bytes4 \<circ> bits32) (slice a i (i + 4))))"
  by (simp add: bits128ToNum_def bn_val_fromBits_rev_byteswap)

lemma bn_val_bits128ToNum_of_bytes:
  "0 < rx \<Longrightarrow> bn_val rx (bits128ToNum rx (of_bytes bs) i) = le_int (take 16 (drop (4 * i) bs))"
  by (simp only: bn_val_bits128ToNum slice_of_bytes le_int_all_bytes_of_bytes)

lemma length_bits128ToNum:
  "length (bits128ToNum rx a i) = max 1 ((32 * length (slice a i (i + 4)) + rx - 1) div rx)"
  by (simp only: bits128ToNum_def length_fromBits_rev_byteswap)

subsection \<open>The number of a block\<close>

declare update_loop.simps [simp del] absorb_blocks.simps [simp del]

lemma slice0_of_bytes: "length blk \<le> 16 \<Longrightarrow> slice (of_bytes blk) 0 4 = of_bytes blk"
  using slice_of_bytes [of blk 0] by simp

lemma length_bits128ToNum_block:
  assumes "length blk \<le> 16"
  shows "length (bits128ToNum rx (of_bytes blk) 0) = max 1 ((32 * ((length blk + 3) div 4) + rx - 1) div rx)"
  using length_bits128ToNum [of rx "of_bytes blk" 0] slice0_of_bytes [OF assms]
  by (simp add: length_of_bytes)

lemma block_ndx_le:
  assumes "0 < rx" "length blk \<le> 16"
  shows "8 * length blk div rx \<le> length (bits128ToNum rx (of_bytes blk) 0)"
proof -
  let ?b = "32 * ((length blk + 3) div 4)"
  have "8 * length blk \<le> ?b" by arith
  then have "8 * length blk div rx \<le> ?b div rx" by (rule div_le_mono)
  also have "\<dots> \<le> (?b + rx - 1) div rx" using assms(1) by (intro div_le_mono) simp
  finally show ?thesis
    by (simp add: length_bits128ToNum_block [OF assms(2)])
qed

lemma block_ci_Some:
  assumes "0 < rx" "length blk \<le> 16"
  shows "\<exists>ci. block_ci rx blk = Some ci"
  unfolding block_ci_def using block_ndx_le [OF assms] by (rule add_limb_Some)

lemma bn_val_block_ci:
  assumes "0 < rx" "rx \<le> 31" "length blk \<le> 16" "block_ci rx blk = Some ci"
  shows "bn_val rx ci = le_int blk + 2 ^ (8 * length blk)"
proof -
  let ?l = "8 * length blk"
  have "?l mod rx < 31" using assms(1,2) mod_less_divisor [of rx ?l] by linarith
  then have sh: "shl1 (?l mod rx) = 2 ^ (?l mod rx)" by (rule shl1_eq)
  have "bn_val rx ci = bn_val rx (bits128ToNum rx (of_bytes blk) 0) + 2 ^ (rx * (?l div rx)) * 2 ^ (?l mod rx)"
    using bn_val_add_limb [OF assms(4) [unfolded block_ci_def], of rx] by (simp only: sh)
  moreover have "(2::int) ^ (rx * (?l div rx)) * 2 ^ (?l mod rx) = 2 ^ ?l"
    by (simp only: power_add [symmetric] mult_div_mod_eq)
  moreover have "bn_val rx (bits128ToNum rx (of_bytes blk) 0) = le_int (take 16 blk)"
    using bn_val_bits128ToNum_of_bytes [OF assms(1), of blk 0] by simp
  ultimately show ?thesis using assms(3) by simp
qed

subsection \<open>What update computes\<close>

lemma bits128ToNum_block:
  "bits128ToNum rx (of_bytes bs) i = bits128ToNum rx (of_bytes (take 16 (drop (4 * i) bs))) 0"
proof -
  have "slice (of_bytes (take 16 (drop (4 * i) bs))) 0 4 = of_bytes (take 16 (drop (4 * i) bs))"
    by (rule slice0_of_bytes) simp
  then show ?thesis
    by (simp add: bits128ToNum_def slice_of_bytes)
qed

lemma update_loop_of_bytes:
  assumes "k \<le> length bs div 16"
  shows "update_loop rx (of_bytes bs) r (4 * (length bs div 16)) (4 * k) h
         = map_option (Pair (4 * (length bs div 16))) (absorb_blocks rx r h (drop (16 * k) bs))"
  using assms
proof (induction "length bs div 16 - k" arbitrary: k h)
  case 0
  then have k: "k = length bs div 16" by simp
  have "length (drop (16 * k) bs) < 16"
    unfolding k by (simp add: minus_mult_div_eq_mod)
  then have "absorb_blocks rx r h (drop (16 * k) bs) = Some h"
    by (subst absorb_blocks.simps) simp
  moreover have "update_loop rx (of_bytes bs) r (4 * (length bs div 16)) (4 * k) h = Some (4 * k, h)"
    by (subst update_loop.simps) (simp add: k)
  ultimately show ?case by (simp add: k)
next
  case (Suc n)
  then have k: "k < length bs div 16" by simp
  let ?blk = "take 16 (drop (16 * k) bs)"
  have "16 * k + 16 \<le> 16 * (length bs div 16)" using k by simp
  also have "\<dots> \<le> length bs" by simp
  finally have len: "16 * k + 16 \<le> length bs" .
  then have lb: "length ?blk = 16" by simp
  have ci: "add_limb (bits128ToNum rx (of_bytes bs) (4 * k)) (bit129ndx rx) (bit129value rx) = block_ci rx ?blk"
    by (simp add: block_ci_def bit129ndx_def bit129value_def bits128ToNum_block [of rx bs "4 * k"] lb
        del: length_take)
  have nl: "\<not> length (drop (16 * k) bs) < 16" using len by simp
  have d: "drop 16 (drop (16 * k) bs) = drop (16 + 16 * k) bs" by simp
  have ih: "update_loop rx (of_bytes bs) r (4 * (length bs div 16)) (4 * k + 4) h'
         = map_option (Pair (4 * (length bs div 16))) (absorb_blocks rx r h' (drop (16 + 16 * k) bs))" for h'
    using Suc.hyps(1) [of "Suc k" h'] Suc.hyps(2) k by (simp add: add.commute)
  show ?case
  proof (cases "block_ci rx ?blk")
    case None
    then show ?thesis
      using k nl
      by (subst update_loop.simps, subst absorb_blocks.simps) (simp add: ci)
  next
    case (Some c)
    then show ?thesis
      using k nl
      by (subst update_loop.simps, subst absorb_blocks.simps) (simp add: ci d ih)
  qed
qed

lemma length_rest: "length (rest bs) = length bs mod 16"
  by (simp add: rest_def minus_mult_div_eq_mod)

lemma rest_short: "length bs < 16 \<Longrightarrow> rest bs = bs"
  by (simp add: rest_def)

lemma rest_eq_Nil: "rest bs = [] \<longleftrightarrow> length bs mod 16 = 0"
  using length_rest [of bs] by (metis length_0_conv)

lemma update_data:
  "(case this_buffer this of Some b \<Rightarrow> bA_concat b (of_bytes m) | None \<Rightarrow> of_bytes m)
   = of_bytes (pending this @ m)"
  by (simp add: pending_def bA_concat_def to_bytes_of_bytes split: option.split)

lemma buffer_left:
  "(if 4 * (length bs div 16) < length (of_bytes bs) then Some (drop (4 * (length bs div 16)) (of_bytes bs)) else None)
   = (if rest bs = [] then None else Some (of_bytes (rest bs)))"
proof -
  have "4 * (length bs div 16) < (length bs + 3) div 4 \<longleftrightarrow> length bs mod 16 \<noteq> 0"
    by arith
  then show ?thesis
    by (simp add: length_of_bytes drop_of_bytes rest_eq_Nil) (simp add: rest_def)
qed

lemma update_of_bytes:
  "update rx this (of_bytes m) =
     (case absorb_blocks rx (this_r this) (this_h this) (pending this @ m) of
        None \<Rightarrow> None
      | Some h \<Rightarrow>
          Some (this\<lparr>this_h := h,
                     this_buffer := (if rest (pending this @ m) = [] then None
                                     else Some (of_bytes (rest (pending this @ m))))\<rparr>))"
proof -
  define bs where "bs = pending this @ m"
  have "update_loop rx (of_bytes bs) (this_r this) (full_words (of_bytes bs)) 0 (this_h this)
        = map_option (Pair (4 * (length bs div 16))) (absorb_blocks rx (this_r this) (this_h this) bs)"
    using update_loop_of_bytes [of 0 bs rx "this_r this" "this_h this"]
    by (simp add: full_words_of_bytes)
  then show ?thesis
    unfolding update_def update_data Let_def bs_def [symmetric]
    by (cases "absorb_blocks rx (this_r this) (this_h this) bs") (simp_all add: buffer_left)
qed

lemma rest_prefix:
  assumes "length pre = 16 * a"
  shows "rest (pre @ zs) = rest zs"
proof -
  have "(16 * a + length zs) div 16 = a + length zs div 16" by simp
  then show ?thesis
    using assms by (simp add: rest_def distrib_left)
qed

lemma rest_drop16: "16 \<le> length bs \<Longrightarrow> rest (drop 16 bs) = rest bs"
  using rest_prefix [of "take 16 bs" 1 "drop 16 bs"] by simp

lemma absorb_blocks_append:
  "absorb_blocks rx r h (xs @ ys) =
     (case absorb_blocks rx r h xs of None \<Rightarrow> None | Some h' \<Rightarrow> absorb_blocks rx r h' (rest xs @ ys))"
proof (induction rx r h xs rule: absorb_blocks.induct)
  case (1 rx r h bs)
  show ?case
  proof (cases "length bs < 16")
    case True
    then have "absorb_blocks rx r h bs = Some h"
      by (subst absorb_blocks.simps) simp
    then show ?thesis using True by (simp add: rest_short)
  next
    case False
    then have ge: "16 \<le> length bs" by simp
    have l: "absorb_blocks rx r h (bs @ ys) =
        (case block_ci rx (take 16 bs) of None \<Rightarrow> None
         | Some ci \<Rightarrow> absorb_blocks rx r (absorb rx h ci r) (drop 16 bs @ ys))"
      using ge by (subst absorb_blocks.simps) (simp split: option.split)
    have r: "absorb_blocks rx r h bs =
        (case block_ci rx (take 16 bs) of None \<Rightarrow> None
         | Some ci \<Rightarrow> absorb_blocks rx r (absorb rx h ci r) (drop 16 bs))"
      using ge by (subst absorb_blocks.simps) simp
    show ?thesis
    proof (cases "block_ci rx (take 16 bs)")
      case None
      then show ?thesis by (simp add: l r)
    next
      case (Some ci)
      then show ?thesis
        using "1.IH" [OF False Some] by (simp add: l r rest_drop16 [OF ge] cong: option.case_cong)
    qed
  qed
qed

lemma absorb_blocks_Some:
  assumes "0 < rx"
  shows "\<exists>h'. absorb_blocks rx r h bs = Some h'"
  using assms
proof (induction rx r h bs rule: absorb_blocks.induct)
  case (1 rx r h bs)
  show ?case
  proof (cases "length bs < 16")
    case True
    then show ?thesis by (subst absorb_blocks.simps) simp
  next
    case False
    obtain ci where ci: "block_ci rx (take 16 bs) = Some ci"
      using block_ci_Some [of rx "take 16 bs"] "1.prems" by auto
    show ?thesis
      using "1.IH" [OF False ci "1.prems"] False by (subst absorb_blocks.simps) (simp add: ci)
  qed
qed

lemma rest_rest_append: "rest (rest xs @ ys) = rest (xs @ ys)"
proof -
  let ?pre = "take (16 * (length xs div 16)) xs"
  have "xs @ ys = ?pre @ (rest xs @ ys)"
    by (simp add: rest_def)
  then have "rest (xs @ ys) = rest (?pre @ (rest xs @ ys))"
    by (rule arg_cong)
  also have "\<dots> = rest (rest xs @ ys)"
    by (rule rest_prefix [of _ "length xs div 16"]) simp
  finally show ?thesis by (rule sym)
qed

lemma update_pending:
  assumes "update rx this (of_bytes m) = Some this'"
  shows "pending this' = rest (pending this @ m)" "this_r this' = this_r this" "this_s this' = this_s this"
    "buffer_ok this'"
  using assms length_rest [of "pending this @ m"]
  by (auto simp add: update_of_bytes pending_def buffer_ok_def to_bytes_of_bytes split: option.splits if_splits)

lemma update_append:
  "update rx this (of_bytes (a @ b)) =
     (case update rx this (of_bytes a) of None \<Rightarrow> None | Some this' \<Rightarrow> update rx this' (of_bytes b))"
proof (cases "update rx this (of_bytes a)")
  case None
  then have "absorb_blocks rx (this_r this) (this_h this) (pending this @ a) = None"
    by (simp add: update_of_bytes split: option.splits)
  then have "absorb_blocks rx (this_r this) (this_h this) (pending this @ a @ b) = None"
    using absorb_blocks_append [of rx "this_r this" "this_h this" "pending this @ a" b] by simp
  then show ?thesis
    using None by (simp add: update_of_bytes)
next
  case (Some this')
  obtain h1 where h1: "absorb_blocks rx (this_r this) (this_h this) (pending this @ a) = Some h1"
    using Some by (cases "absorb_blocks rx (this_r this) (this_h this) (pending this @ a)")
      (simp_all add: update_of_bytes)
  obtain bf1 where t: "this' = this\<lparr>this_h := h1, this_buffer := bf1\<rparr>"
    using Some by (auto simp add: update_of_bytes h1)
  have this': "this_h this' = h1" by (simp add: t)
  note p = update_pending [OF Some]
  define bs where "bs = rest (pending this @ a) @ b"
  define bf where "bf = (if rest bs = [] then None else Some (of_bytes (rest bs)))"
  have ab: "absorb_blocks rx (this_r this) (this_h this) (pending this @ a @ b)
      = absorb_blocks rx (this_r this) h1 bs"
    using absorb_blocks_append [of rx "this_r this" "this_h this" "pending this @ a" b]
    by (simp add: h1 bs_def)
  have rr: "rest (pending this @ a @ b) = rest bs"
    using rest_rest_append [of "pending this @ a" b] by (simp add: bs_def)
  have eq: "this'\<lparr>this_h := h, this_buffer := bf\<rparr> = this\<lparr>this_h := h, this_buffer := bf\<rparr>" for h
    by (simp add: t)
  have l: "update rx this (of_bytes (a @ b)) =
      (case absorb_blocks rx (this_r this) h1 bs of None \<Rightarrow> None
       | Some h \<Rightarrow> Some (this\<lparr>this_h := h, this_buffer := bf\<rparr>))"
    by (simp only: update_of_bytes ab rr bf_def)
  have r: "update rx this' (of_bytes b) =
      (case absorb_blocks rx (this_r this) h1 bs of None \<Rightarrow> None
       | Some h \<Rightarrow> Some (this'\<lparr>this_h := h, this_buffer := bf\<rparr>))"
    by (simp only: update_of_bytes p(1,2) this' bs_def bf_def)
  show ?thesis
    unfolding Some option.case l r
    by (cases "absorb_blocks rx (this_r this) h1 bs") (simp_all only: option.case eq)
qed

lemma update_empty:
  assumes "buffer_ok this"
  shows "update rx this [] = Some this"
proof -
  have l: "length (pending this) < 16"
    using assms by (simp add: buffer_ok_def pending_def split: option.splits)
  then have "absorb_blocks rx (this_r this) (this_h this) (pending this) = Some (this_h this)"
    by (subst absorb_blocks.simps) simp
  moreover have "(if rest (pending this) = [] then None else Some (of_bytes (rest (pending this))))
      = this_buffer this"
  proof (cases "this_buffer this")
    case None
    then show ?thesis by (simp add: pending_def rest_def)
  next
    case (Some b)
    then have "pending this = to_bytes b" "to_bytes b \<noteq> []" "of_bytes (to_bytes b) = b"
      using assms by (simp_all add: pending_def buffer_ok_def)
    then show ?thesis
      using Some rest_short [OF l] by simp
  qed
  ultimately have "update rx this (of_bytes []) = Some (this\<lparr>this_h := this_h this, this_buffer := this_buffer this\<rparr>)"
    by (simp only: update_of_bytes append_Nil2 option.case)
  then show ?thesis by simp
qed

lemma update_Some:
  assumes "0 < rx"
  shows "\<exists>this'. update rx this (of_bytes m) = Some this'"
  using absorb_blocks_Some [OF assms, of "this_r this" "this_h this" "pending this @ m"]
  by (auto simp add: update_of_bytes)

lemma updates_of_bytes:
  assumes "buffer_ok this"
  shows "updates rx this (map of_bytes chunks) = update rx this (of_bytes (concat chunks))"
  using assms
proof (induction chunks arbitrary: this)
  case Nil
  then show ?case by (simp add: update_empty)
next
  case (Cons c cs)
  show ?case
  proof (cases "update rx this (of_bytes c)")
    case None
    then show ?thesis by (simp add: update_append)
  next
    case (Some this')
    have "buffer_ok this'" using update_pending(4) [OF Some] .
    then show ?thesis
      using Cons.IH [of this'] Some by (simp add: update_append)
  qed
qed

text \<open>
  C1. Feeding a message in chunks, in any partition into consecutive byte-aligned
  chunks, leaves the context in the very state a single \<open>update\<close> with the whole message
  leaves it in (so every later \<open>finalize\<close> gives the same tag), and both return.
\<close>

theorem update_chunks_same_state:
  assumes "0 < rx" and "buffer_ok this"
  shows "\<exists>this'. updates rx this (map of_bytes chunks) = Some this'
               \<and> update rx this (of_bytes (concat chunks)) = Some this'"
proof -
  obtain this' where "update rx this (of_bytes (concat chunks)) = Some this'"
    using update_Some [OF assms(1)] by blast
  then show ?thesis
    by (simp add: updates_of_bytes [OF assms(2)])
qed

theorem update_chunks_same_state_witness:
  "0 < (24::nat)
   \<and> buffer_ok \<lparr>this_r = [1], this_s = [2], this_h = [0], this_buffer = Some (of_bytes [7])\<rparr>
   \<and> (\<exists>this'. updates 24 \<lparr>this_r = [1], this_s = [2], this_h = [0], this_buffer = Some (of_bytes [7])\<rparr>
                   (map of_bytes [[1, 2, 3], [], [4, 5, 6, 7, 8, 9, 10, 11, 12, 13, 14, 15, 16, 17]]) = Some this'
          \<and> update 24 \<lparr>this_r = [1], this_s = [2], this_h = [0], this_buffer = Some (of_bytes [7])\<rparr>
                   (of_bytes (concat [[1, 2, 3], [], [4, 5, 6, 7, 8, 9, 10, 11, 12, 13, 14, 15, 16, 17]])) = Some this')"
proof -
  have b: "buffer_ok \<lparr>this_r = [1], this_s = [2], this_h = [0], this_buffer = Some (of_bytes [7])\<rparr>"
    by (simp add: buffer_ok_def to_bytes_of_bytes del: of_bytes.simps)
  show ?thesis
    using update_chunks_same_state [of 24, OF _ b, of "[[1, 2, 3], [], [4, 5, 6, 7, 8, 9, 10, 11, 12, 13, 14, 15, 16, 17]]"] b
    by auto
qed

subsection \<open>The value of a round\<close>

declare spec_blocks.simps [simp del]

lemma p1305_fits: "0 < rx \<Longrightarrow> p1305_modulus \<le> 2 ^ (rx * p1305_limbs rx)"
proof -
  assume "0 < rx"
  then have "130 \<le> rx * p1305_limbs rx"
    unfolding p1305_limbs_def by (rule ceil_mult_ge)
  then have "(2::int) ^ 130 \<le> 2 ^ (rx * p1305_limbs rx)"
    by (simp only: power_increasing_iff) 
  then show ?thesis by (simp add: p1305_modulus_def)
qed

lemma bn_val_limbs_mod_p:
  assumes "0 < rx"
  shows "bn_val rx (limbs_of rx (p1305_limbs rx) (v mod p1305_modulus)) = v mod p1305_modulus"
proof (rule bn_val_limbs_of_id)
  show "0 \<le> v mod p1305_modulus" by (simp add: p1305_modulus_def)
  have "v mod p1305_modulus < p1305_modulus" by (simp add: p1305_modulus_def)
  then show "v mod p1305_modulus < 2 ^ (rx * p1305_limbs rx)"
    using p1305_fits [OF assms] by linarith
qed

lemma bn_val_p1305_mul:
  "0 < rx \<Longrightarrow> bn_val rx (p1305_mul rx a b) = (bn_val rx a * bn_val rx b) mod p1305_modulus"
  by (simp add: p1305_mul_def bn_val_limbs_mod_p)

lemma bn_val_p1305_fullReduce:
  "0 < rx \<Longrightarrow> bn_val rx (p1305_fullReduce rx a) = bn_val rx a mod p1305_modulus"
  by (simp add: p1305_fullReduce_def bn_val_limbs_mod_p)

lemma bn_val_absorb:
  "0 < rx \<Longrightarrow> bn_val rx (absorb rx h ci r) = ((bn_val rx h + bn_val rx ci) * bn_val rx r) mod p1305_modulus"
  by (simp add: absorb_def bn_val_p1305_mul bn_val_cnormalize bn_val_addM)

lemma absorb_spec_round:
  assumes "0 < rx" "rx \<le> 31" "length blk \<le> 16" "block_ci rx blk = Some ci"
  shows "bn_val rx (absorb rx h ci r) = spec_round (bn_val rx r) (bn_val rx h) blk"
  by (simp add: bn_val_absorb [OF assms(1)] bn_val_block_ci [OF assms] spec_round_def mod_mult_left_eq)

lemma absorb_blocks_val:
  assumes "0 < rx" "rx \<le> 31" "absorb_blocks rx r h bs = Some h'"
  shows "bn_val rx h' = spec_blocks (bn_val rx r) (bn_val rx h) bs"
  using assms
proof (induction rx r h bs rule: absorb_blocks.induct)
  case (1 rx r h bs)
  show ?case
  proof (cases "length bs < 16")
    case True
    then have "absorb_blocks rx r h bs = Some h" by (subst absorb_blocks.simps) simp
    moreover have "spec_blocks (bn_val rx r) (bn_val rx h) bs = bn_val rx h"
      using True by (subst spec_blocks.simps) simp
    ultimately show ?thesis using "1.prems" by simp
  next
    case False
    obtain ci where ci: "block_ci rx (take 16 bs) = Some ci"
      using block_ci_Some [of rx "take 16 bs"] "1.prems" by auto
    have "absorb_blocks rx r (absorb rx h ci r) (drop 16 bs) = Some h'"
      using "1.prems"(3) False by (subst (asm) absorb_blocks.simps) (simp add: ci)
    then have "bn_val rx h' = spec_blocks (bn_val rx r) (bn_val rx (absorb rx h ci r)) (drop 16 bs)"
      using "1.IH" [OF False ci] "1.prems" by simp
    moreover have "bn_val rx (absorb rx h ci r) = spec_round (bn_val rx r) (bn_val rx h) (take 16 bs)"
      using absorb_spec_round [OF "1.prems"(1,2) _ ci] by simp
    ultimately show ?thesis
      using False by (subst spec_blocks.simps) simp
  qed
qed

text \<open>
  C2. \<open>update\<close> returns, and the accumulator it leaves is the one the spec's rounds give
  over the full 16-byte blocks of the pending bytes followed by the new data: for each
  block, its little-endian number plus \<open>2^128\<close> is added to \<open>h\<close> modulo \<open>p\<close> and the
  sum is then multiplied by \<open>r\<close> modulo \<open>p = 2^130 - 5\<close>. When these bytes are exactly
  one block, that is one addition followed by one multiplication.
\<close>

theorem update_rounds:
  assumes "0 < rx" and "rx \<le> 31"
  shows "\<exists>this'. update rx this (of_bytes m) = Some this'
           \<and> bn_val rx (this_h this')
               = spec_blocks (bn_val rx (this_r this)) (bn_val rx (this_h this)) (pending this @ m)
           \<and> (if length (pending this @ m) = 16
               then bn_val rx (this_h this')
                    = ((bn_val rx (this_h this) + (le_int (pending this @ m) + 2 ^ 128)) mod (2 ^ 130 - 5)
                        * bn_val rx (this_r this)) mod (2 ^ 130 - 5)
               else True)"
proof -
  let ?bs = "pending this @ m"
  obtain h' where h': "absorb_blocks rx (this_r this) (this_h this) ?bs = Some h'"
    using absorb_blocks_Some [OF assms(1)] by blast
  have v: "bn_val rx h' = spec_blocks (bn_val rx (this_r this)) (bn_val rx (this_h this)) ?bs"
    using absorb_blocks_val [OF assms h'] .
  have one: "spec_blocks r h bs = spec_round r h bs" if "length bs = 16" for r h bs
    using that by (subst spec_blocks.simps, subst spec_blocks.simps) simp
  show ?thesis
    using v by (auto simp add: update_of_bytes h' one spec_round_def p1305_modulus_def simp del: length_append)
qed

theorem update_rounds_witness:
  "0 < (24::nat) \<and> (24::nat) \<le> 31
   \<and> (\<exists>this'. update 24 \<lparr>this_r = [2], this_s = [0], this_h = [0], this_buffer = None\<rparr>
                  (of_bytes [1, 0, 0, 0, 0, 0, 0, 0, 0, 0, 0, 0, 0, 0, 0, 0]) = Some this'
          \<and> bn_val 24 (this_h this') = 680564733841876926926749214863536422914)"
  using update_rounds [of 24 "\<lparr>this_r = [2], this_s = [0], this_h = [0], this_buffer = None\<rparr>"
      "[1, 0, 0, 0, 0, 0, 0, 0, 0, 0, 0, 0, 0, 0, 0, 0]"]
  by (simp add: pending_def bn_val_def le_int_def del: of_bytes.simps) blast

subsection \<open>What finalize computes\<close>

lemma be32_bytes4: "be32 (bytes4 v) = v"
  by (simp add: be32_def length_bytes4 be_int_bytes4)

lemma of_bytes_all_bytes: "of_bytes (concat (map bytes4 vs)) = map (JSWord 32) vs"
proof (induction vs)
  case Nil
  then show ?case by simp
next
  case (Cons v vs)
  obtain a b c d where v: "bytes4 v = [a, b, c, d]"
    by (simp add: bytes4_def)
  have "be32 [a, b, c, d] = v"
    using be32_bytes4 [of v] by (simp add: v)
  then show ?case
    by (simp add: v Cons.IH)
qed

lemma rev_byteswap_bytes: "rev (byteswap r) = of_bytes (rev (concat (map (bytes4 \<circ> bits32) r)))"
  by (simp only: rev_byteswap bytes_rev_bswap [symmetric] of_bytes_all_bytes)

lemma all_bytes_of_bytes_full:
  assumes "length bs mod 4 = 0"
  shows "concat (map (bytes4 \<circ> bits32) (of_bytes bs)) = bs"
proof -
  have "4 * ((length bs + 3) div 4) - length bs = 0"
    using assms by arith
  then show ?thesis
    by (simp add: all_bytes_of_bytes length_of_bytes)
qed

lemma rev_byteswap_toBits128:
  "rev (byteswap (toBits rx 128 x)) = of_bytes (le_bytes 16 (bn_val rx x mod 2 ^ 128))"
proof -
  have "length (be_bytes 16 (bn_val rx x mod 2 ^ 128)) mod 4 = 0"
    by (simp add: be_bytes_rev length_le_bytes)
  then show ?thesis
    by (simp add: rev_byteswap_bytes toBits_def all_bytes_of_bytes_full be_bytes_rev)
qed

lemma finalize_h_eq:
  assumes "buffer_ok this"
  shows "finalize_h rx this =
     (if this_buffer this = None then Some (this_h this)
      else map_option (\<lambda>ci. absorb rx (this_h this) ci (this_r this)) (block_ci rx (pending this)))"
proof (cases "this_buffer this")
  case None
  then show ?thesis by (simp add: finalize_h_def)
next
  case (Some b)
  then have b: "b = of_bytes (to_bytes b)" and p: "pending this = to_bytes b"
    using assms by (simp_all add: buffer_ok_def pending_def)
  have l: "bitLength b = 8 * length (to_bytes b)"
    by (subst b) (simp only: bitLength_of_bytes)
  have "block_ci rx (to_bytes b)
      = add_limb (bits128ToNum rx b 0) (bitLength b div rx) (shl1 (bitLength b mod rx))"
    unfolding block_ci_def l using b by simp
  then show ?thesis
    using Some by (simp add: finalize_h_def p Let_def split: option.split)
qed

lemma pending_bounds:
  assumes "buffer_ok this" "this_buffer this \<noteq> None"
  shows "0 < length (pending this)" "length (pending this) < 16"
  using assms by (auto simp add: buffer_ok_def pending_def)

text \<open>
  C3. \<open>finalize\<close> folds the pending bytes, \<open>L\<close> of them with \<open>1 \<le> L \<le> 15\<close>, into its
  copy of the accumulator with the round of a full block, the marker being \<open>2^(8L)\<close>:
  the little-endian number of the bytes plus \<open>2^(8L)\<close> is added to \<open>h\<close> modulo \<open>p\<close>,
  then the sum is multiplied by \<open>r\<close> modulo \<open>p\<close>. With no pending buffer nothing is
  folded: the accumulator is taken as it is.
\<close>

theorem finalize_pending_round:
  assumes "0 < rx" and "rx \<le> 31" and "buffer_ok this"
  shows "\<exists>h'. finalize_h rx this = Some h'
           \<and> (if this_buffer this = None then h' = this_h this
               else 1 \<le> length (pending this) \<and> length (pending this) \<le> 15
                    \<and> bn_val rx h'
                        = ((bn_val rx (this_h this)
                             + (le_int (pending this) + 2 ^ (8 * length (pending this)))) mod (2 ^ 130 - 5)
                            * bn_val rx (this_r this)) mod (2 ^ 130 - 5))"
proof (cases "this_buffer this = None")
  case True
  then show ?thesis by (simp add: finalize_h_eq [OF assms(3)])
next
  case False
  note pb = pending_bounds [OF assms(3) False]
  then have le: "length (pending this) \<le> 16" by simp
  obtain ci where ci: "block_ci rx (pending this) = Some ci"
    using block_ci_Some [OF assms(1) le] by blast
  have "bn_val rx (absorb rx (this_h this) ci (this_r this))
      = spec_round (bn_val rx (this_r this)) (bn_val rx (this_h this)) (pending this)"
    using absorb_spec_round [OF assms(1,2) le ci] .
  moreover have "1 \<le> length (pending this)" "length (pending this) \<le> 15"
    using pb by (simp_all add: Suc_le_eq)
  ultimately show ?thesis
    using False by (auto simp add: finalize_h_eq [OF assms(3)] ci spec_round_def p1305_modulus_def)
qed

lemma finalize_h_Some:
  assumes "0 < rx" "buffer_ok this"
  shows "\<exists>h'. finalize_h rx this = Some h'"
proof (cases "this_buffer this = None")
  case True
  then show ?thesis by (simp add: finalize_h_eq [OF assms(2)])
next
  case False
  have "length (pending this) \<le> 16" using pending_bounds(2) [OF assms(2) False] by simp
  then obtain ci where "block_ci rx (pending this) = Some ci"
    using block_ci_Some [OF assms(1)] by blast
  then show ?thesis
    using False by (simp add: finalize_h_eq [OF assms(2)])
qed

lemma finalize_eq:
  assumes "0 < rx" "finalize_h rx this = Some h'"
  shows "finalize rx this
      = Some (of_bytes (le_bytes 16 ((bn_val rx h' mod p1305_modulus + bn_val rx (this_s this)) mod 2 ^ 128)))"
  by (simp add: finalize_def assms rev_byteswap_toBits128 bn_val_addM bn_val_p1305_fullReduce)

text \<open>
  C4. After the pending block, \<open>finalize\<close> reduces the accumulator to its canonical
  representative \<open>c\<close> in \<open>[0, p)\<close>, keeps the low 128 bits of \<open>c\<close>, adds \<open>s\<close> modulo
  \<open>2^128\<close> and returns the sum as 16 little-endian bytes, whatever was fed before.
\<close>

theorem finalize_tag:
  assumes "0 < rx" and "buffer_ok this"
  shows "\<exists>h' c tag. finalize_h rx this = Some h' \<and> finalize rx this = Some tag
           \<and> c = bn_val rx h' mod (2 ^ 130 - 5) \<and> 0 \<le> c \<and> c < 2 ^ 130 - 5
           \<and> tag = of_bytes (le_bytes 16 ((c mod 2 ^ 128 + bn_val rx (this_s this)) mod 2 ^ 128))
           \<and> length (to_bytes tag) = 16 \<and> bitLength tag = 128"
proof -
  obtain h' where h': "finalize_h rx this = Some h'"
    using finalize_h_Some [OF assms] by blast
  let ?c = "bn_val rx h' mod p1305_modulus"
  have "(?c + bn_val rx (this_s this)) mod 2 ^ 128 = (?c mod 2 ^ 128 + bn_val rx (this_s this)) mod 2 ^ 128"
    by (simp add: mod_add_left_eq)
  then have "finalize rx this
      = Some (of_bytes (le_bytes 16 ((?c mod 2 ^ 128 + bn_val rx (this_s this)) mod 2 ^ 128)))"
    using finalize_eq [OF assms(1) h'] by simp
  moreover have "0 \<le> ?c" "?c < 2 ^ 130 - 5"
    by (simp_all add: p1305_modulus_def)
  ultimately show ?thesis
    using h' by (simp add: p1305_modulus_def to_bytes_of_bytes bitLength_of_bytes length_le_bytes)
qed

theorem finalize_pending_round_witness:
  "0 < (24::nat) \<and> (24::nat) \<le> 31
   \<and> buffer_ok \<lparr>this_r = [2], this_s = [0], this_h = [0], this_buffer = Some (of_bytes [1])\<rparr>
   \<and> (\<exists>h'. finalize_h 24 \<lparr>this_r = [2], this_s = [0], this_h = [0], this_buffer = Some (of_bytes [1])\<rparr> = Some h'
          \<and> bn_val 24 h' = 514)"
proof -
  have b: "buffer_ok \<lparr>this_r = [2], this_s = [0], this_h = [0], this_buffer = Some (of_bytes [1])\<rparr>"
    by (simp add: buffer_ok_def to_bytes_of_bytes del: of_bytes.simps)
  show ?thesis
    using finalize_pending_round [of 24, OF _ _ b] b
    by (simp add: pending_def to_bytes_of_bytes bn_val_def le_int_def del: of_bytes.simps)
qed

lemma le_bytes_16_5: "le_bytes 16 5 = [5, 0, 0, 0, 0, 0, 0, 0, 0, 0, 0, 0, 0, 0, 0, 0]"
  by (simp add: le_bytes_def upt_rec)

theorem finalize_tag_witness:
  "0 < (24::nat)
   \<and> buffer_ok \<lparr>this_r = [2], this_s = [5], this_h = [0], this_buffer = None\<rparr>
   \<and> finalize 24 \<lparr>this_r = [2], this_s = [5], this_h = [0], this_buffer = None\<rparr>
       = Some (of_bytes [5, 0, 0, 0, 0, 0, 0, 0, 0, 0, 0, 0, 0, 0, 0, 0])"
proof -
  have b: "buffer_ok \<lparr>this_r = [2], this_s = [5], this_h = [0], this_buffer = None\<rparr>"
    by (simp add: buffer_ok_def)
  have h: "finalize_h 24 \<lparr>this_r = [2], this_s = [5], this_h = [0], this_buffer = None\<rparr> = Some [0]"
    by (simp add: finalize_h_def)
  show ?thesis
    using finalize_tag [of 24, OF _ b] b
    by (simp add: h bn_val_def le_bytes_16_5 del: of_bytes.simps)
qed

subsection \<open>The constructor\<close>

lemma length_clamp_key: "length (clamp_key key) = length key"
  by (simp add: clamp_key_def Let_def)

lemma drop4_clamp_key: "drop 4 (clamp_key key) = drop 4 key"
  by (simp add: clamp_key_def Let_def drop_update_cancel)

lemma poly1305_new_Inr:
  "poly1305_new rx key = Inr (this, key') \<longleftrightarrow>
     length key = 8 \<and> key' = clamp_key key
     \<and> this = \<lparr>this_r = bits128ToNum rx key' 0, this_s = bits128ToNum rx key' 4,
                this_h = [0], this_buffer = None\<rparr>"
  by (auto simp add: poly1305_new_def Let_def)

lemma finalize_h_None: "this_buffer this = None \<Longrightarrow> finalize_h rx this = Some (this_h this)"
  by (simp add: finalize_h_def)

lemma le_bytes_le_int_16:
  assumes "length bs = 16"
  shows "le_bytes 16 (le_int bs mod 2 ^ 128) = bs"
proof -
  have "le_int bs < 2 ^ 128" using le_int_lt_pow2 [of bs] assms by simp
  then have "le_int bs mod 2 ^ 128 = le_int bs" using le_int_nonneg [of bs] by simp
  then show ?thesis using le_bytes_le_int [of bs] assms by simp
qed

lemma map_full_eq: "map (JSWord 32) (map bits32 ws) = map (\<lambda>w. JSWord 32 (bits32 w)) ws"
  by simp

text \<open>
  C9. With nothing fed, or only empty chunks, \<open>finalize\<close> returns the 128-bit number \<open>s\<close>
  as 16 little-endian bytes: the last four words of the key as they stand, whatever the
  first four words, from which \<open>r\<close> comes, are.
\<close>

theorem finalize_empty_message:
  assumes "0 < rx" and "poly1305_new rx key = Inr (this, key')"
  shows "updates rx this (replicate n []) = Some this
       \<and> finalize rx this = Some (of_bytes (le_bytes 16 (bn_val rx (this_s this))))
       \<and> finalize rx this = Some (map (\<lambda>w. JSWord 32 (bits32 w)) (drop 4 key))"
proof -
  from assms(2) have len: "length key = 8" and key': "key' = clamp_key key"
    and ctx: "this = \<lparr>this_r = bits128ToNum rx key' 0, this_s = bits128ToNum rx key' 4,
                this_h = [0], this_buffer = None\<rparr>"
    by (simp_all add: poly1305_new_Inr)
  let ?bs = "concat (map (bytes4 \<circ> bits32) (drop 4 key))"
  have ok: "buffer_ok this" by (simp add: ctx buffer_ok_def)
  have e: "update rx this [] = Some this" using update_empty [OF ok] .
  have u: "updates rx this (replicate n []) = Some this"
    by (induction n) (simp_all add: e)
  have "slice key' 4 (4 + 4) = drop 4 key"
    using len by (simp add: slice_def key' drop4_clamp_key)
  then have s: "bn_val rx (this_s this) = le_int ?bs"
    using bn_val_bits128ToNum [OF assms(1), of key' 4] by (simp add: ctx)
  have l: "length ?bs = 16" using len by (simp add: length_all_bytes)
  have s128: "bn_val rx (this_s this) mod 2 ^ 128 = bn_val rx (this_s this)"
    using le_int_lt_pow2 [of ?bs] le_int_nonneg [of ?bs] l by (simp add: s)
  have "finalize_h rx this = Some [0]" by (simp add: ctx finalize_h_def)
  then have f: "finalize rx this = Some (of_bytes (le_bytes 16 (bn_val rx (this_s this))))"
    using finalize_eq [OF assms(1), of this "[0]"] s128
    by (simp add: bn_val_Cons bn_val_Nil)
  have "le_bytes 16 (bn_val rx (this_s this)) = ?bs"
    using le_bytes_le_int [of ?bs] l by (simp add: s)
  then have "of_bytes (le_bytes 16 (bn_val rx (this_s this))) = map (\<lambda>w. JSWord 32 (bits32 w)) (drop 4 key)"
    using of_bytes_all_bytes [of "map bits32 (drop 4 key)"] by (simp add: comp_def)
  then show ?thesis using u f by simp
qed

theorem finalize_empty_message_witness:
  "0 < (24::nat)
   \<and> (\<exists>this key'. poly1305_new 24 (map (JSWord 32) [1, 2, 3, 4, 5, 6, 7, 8]) = Inr (this, key')
          \<and> updates 24 this (replicate 2 []) = Some this
          \<and> finalize 24 this = Some (map (JSWord 32) [5, 6, 7, 8]))"
proof -
  obtain this key' where n: "poly1305_new 24 (map (JSWord 32) [1, 2, 3, 4, 5, 6, 7, 8]) = Inr (this, key')"
    by (simp add: poly1305_new_Inr)
  show ?thesis
    using finalize_empty_message [of 24, OF _ n, of 2] n by auto
qed

subsection \<open>The clamp\<close>

lemma f0_eq: "(0xf0 :: 32 word) = push_bit 4 (mask 4)"
  by (simp add: mask_eq_exp_minus_1)

lemma m30000f0_eq: "(0x30000f0 :: 32 word) = push_bit 24 (mask 2) OR push_bit 4 (mask 4)"
  by (simp add: mask_eq_exp_minus_1)

lemma bit_clamp0: "bit (v AND NOT 0xf0 :: 32 word) n \<longleftrightarrow> bit v n \<and> \<not> (4 \<le> n \<and> n < 8)"
  unfolding f0_eq
  by (simp only: bit_and_iff bit_not_iff bit_push_bit_iff bit_mask_iff possible_bit_word)
     (auto dest: bit32)

lemma bit_clamp1:
  "bit (v AND NOT 0x30000f0 :: 32 word) n \<longleftrightarrow> bit v n \<and> \<not> (4 \<le> n \<and> n < 8) \<and> \<not> (24 \<le> n \<and> n < 26)"
  unfolding m30000f0_eq
  by (simp only: bit_and_iff bit_not_iff bit_or_iff bit_push_bit_iff bit_mask_iff possible_bit_word)
     (auto dest: bit32)

lemma uint_lt_16:
  assumes "\<And>n. 4 \<le> n \<Longrightarrow> \<not> bit b n"
  shows "uint (b :: byte) < 16"
proof -
  have "bit b n \<Longrightarrow> n < 4" for n
    using assms [of n] by (cases "n < 4") simp_all
  then have "take_bit 4 b = b"
    by (intro bit_word_eqI) (auto simp add: bit_take_bit_iff)
  then have "uint b = take_bit 4 (uint b)"
    by (metis unsigned_take_bit_eq)
  then show ?thesis
    using take_bit_int_less_exp [of 4 "uint b"] by simp
qed

lemma uint_mod_4:
  assumes "\<And>n. n < 2 \<Longrightarrow> \<not> bit b n"
  shows "uint (b :: byte) mod 4 = 0"
proof -
  have "take_bit 2 b = 0"
    by (rule bit_word_eqI) (use assms in \<open>auto simp add: bit_take_bit_iff\<close>)
  then have "take_bit 2 (uint b) = 0"
    by (metis unsigned_take_bit_eq unsigned_0)
  then show ?thesis
    by (simp add: take_bit_eq_mod)
qed

lemma clamp0_low: "uint (byte_at 0 (v AND NOT 0xf0)) < 16"
proof (rule uint_lt_16)
  fix n :: nat
  assume "4 \<le> n"
  then show "\<not> bit (byte_at 0 (v AND NOT 0xf0)) n"
    unfolding bit_byte_at bit_clamp0 by simp
qed

lemma clamp1_low: "uint (byte_at 0 (v AND NOT 0x30000f0)) < 16"
proof (rule uint_lt_16)
  fix n :: nat
  assume "4 \<le> n"
  then show "\<not> bit (byte_at 0 (v AND NOT 0x30000f0)) n"
    unfolding bit_byte_at bit_clamp1 by simp
qed

lemma clamp1_high: "uint (byte_at 3 (v AND NOT 0x30000f0)) mod 4 = 0"
proof (rule uint_mod_4)
  fix n :: nat
  assume "n < 2"
  then show "\<not> bit (byte_at 3 (v AND NOT 0x30000f0)) n"
    unfolding bit_byte_at bit_clamp1 by simp
qed

lemma le_int_bytes4:
  "le_int (bytes4 w) = uint (byte_at 3 w) + 256 * (uint (byte_at 2 w) + 256 * (uint (byte_at 1 w)
      + 256 * uint (byte_at 0 w)))"
  by (simp add: bytes4_def le_int_Cons) (simp add: le_int_def)

lemma le_int_bytes4_lt:
  assumes "uint (byte_at 0 w) < 16"
  shows "le_int (bytes4 w) < 2 ^ 28"
proof -
  have "uint (byte_at 3 w) < 256" "uint (byte_at 2 w) < 256" "uint (byte_at 1 w) < 256"
    using uint_bounded [of "byte_at 3 w"] uint_bounded [of "byte_at 2 w"] uint_bounded [of "byte_at 1 w"]
    by simp_all
  then show ?thesis
    using assms by (simp add: le_int_bytes4)
qed

lemma le_int_bytes4_mod4:
  assumes "uint (byte_at 3 w) mod 4 = 0"
  shows "le_int (bytes4 w) mod 4 = 0"
proof -
  have "le_int (bytes4 w) = uint (byte_at 3 w) + 4 * (64 * (uint (byte_at 2 w) + 256 * (uint (byte_at 1 w)
      + 256 * uint (byte_at 0 w))))"
    by (simp add: le_int_bytes4)
  then show ?thesis
    using assms by (simp only: mod_mult_self2) 
qed

lemma le_word32_le_int:
  assumes "length pre = 4 * i" "length blk = 4"
  shows "le_word32 (le_int (pre @ blk @ post)) i = le_int blk"
proof -
  have p: "0 \<le> le_int pre" "le_int pre < 2 ^ (32 * i)"
    using le_int_nonneg [of pre] le_int_lt_pow2 [of pre] assms(1) by simp_all
  have b: "0 \<le> le_int blk" "le_int blk < 2 ^ 32"
    using le_int_nonneg [of blk] le_int_lt_pow2 [of blk] assms(2) by simp_all
  have e: "(256::int) ^ (4 * i) = 2 ^ (32 * i)"
    by (simp add: power_mult)
  have "le_int (pre @ blk @ post) = le_int pre + 2 ^ (32 * i) * (le_int blk + 2 ^ 32 * le_int post)"
    using assms by (simp add: le_int_append e)
  then have "le_int (pre @ blk @ post) div 2 ^ (32 * i) = le_int blk + 2 ^ 32 * le_int post"
    using p by (simp add: div_pos_pos_trivial)
  then show ?thesis
    using b by (simp add: le_word32_def)
qed

lemma take4_nth: "4 \<le> length xs \<Longrightarrow> take 4 xs = [xs ! 0, xs ! 1, xs ! 2, xs ! 3]"
  by (rule nth_equalityI) (auto simp add: less_Suc_eq numeral_eq_Suc)

lemma clamp_key_nth:
  assumes "4 \<le> length key"
  shows "clamp_key key ! 0 = JSWord 32 (bits32 (key ! 0) AND NOT 0xf0)"
    "clamp_key key ! 1 = JSWord 32 (bits32 (key ! 1) AND NOT 0x30000f0)"
    "clamp_key key ! 2 = JSWord 32 (bits32 (key ! 2) AND NOT 0x30000f0)"
    "clamp_key key ! 3 = JSWord 32 (bits32 (key ! 3) AND NOT 0x30000f0)"
proof -
  have "0 < length key" "1 < length key" "2 < length key" "3 < length key"
    using assms by linarith+
  then show "clamp_key key ! 0 = JSWord 32 (bits32 (key ! 0) AND NOT 0xf0)"
    "clamp_key key ! 1 = JSWord 32 (bits32 (key ! 1) AND NOT 0x30000f0)"
    "clamp_key key ! 2 = JSWord 32 (bits32 (key ! 2) AND NOT 0x30000f0)"
    "clamp_key key ! 3 = JSWord 32 (bits32 (key ! 3) AND NOT 0x30000f0)"
    by (simp_all add: clamp_key_def Let_def and_assign_def)
qed

lemma update_r: "update rx this d = Some this' \<Longrightarrow> this_r this' = this_r this \<and> this_s this' = this_s this"
  by (auto simp add: update_def Let_def split: option.splits prod.splits)

lemma updates_r: "updates rx this ds = Some this' \<Longrightarrow> this_r this' = this_r this \<and> this_s this' = this_s this"
proof (induction ds arbitrary: this)
  case Nil
  then show ?case by simp
next
  case (Cons d ds)
  then show ?case
    by (auto split: option.splits dest: update_r)
qed

lemma r_words:
  assumes "0 < rx" "length key = 8"
  shows "bn_val rx (bits128ToNum rx (clamp_key key) 0)
       = le_int (bytes4 (bits32 (key ! 0) AND NOT 0xf0) @ bytes4 (bits32 (key ! 1) AND NOT 0x30000f0)
           @ bytes4 (bits32 (key ! 2) AND NOT 0x30000f0) @ bytes4 (bits32 (key ! 3) AND NOT 0x30000f0))"
proof -
  have "4 \<le> length (clamp_key key)" using assms(2) by (simp add: length_clamp_key)
  then have "slice (clamp_key key) 0 (0 + 4)
      = [clamp_key key ! 0, clamp_key key ! 1, clamp_key key ! 2, clamp_key key ! 3]"
    by (simp add: slice_def take4_nth)
  then show ?thesis
    using assms by (simp only: bn_val_bits128ToNum [OF assms(1)] clamp_key_nth) simp
qed

text \<open>
  C6. The multiplier \<open>r\<close> of a context built from any accepted key, read as four
  little-endian 32-bit words, has the top four bits of every word clear and the two low
  bits of words 1, 2 and 3 clear; and \<open>r\<close> is the same after any number of \<open>update\<close>
  calls.
\<close>

theorem r_clamped:
  assumes "0 < rx" and "poly1305_new rx key = Inr (this, key')" and "updates rx this ds = Some this'"
  shows "this_r this' = this_r this
       \<and> 0 \<le> bn_val rx (this_r this') \<and> bn_val rx (this_r this') < 2 ^ 128
       \<and> le_word32 (bn_val rx (this_r this')) 0 < 2 ^ 28
       \<and> le_word32 (bn_val rx (this_r this')) 1 < 2 ^ 28 \<and> le_word32 (bn_val rx (this_r this')) 1 mod 4 = 0
       \<and> le_word32 (bn_val rx (this_r this')) 2 < 2 ^ 28 \<and> le_word32 (bn_val rx (this_r this')) 2 mod 4 = 0
       \<and> le_word32 (bn_val rx (this_r this')) 3 < 2 ^ 28 \<and> le_word32 (bn_val rx (this_r this')) 3 mod 4 = 0"
proof -
  from assms(2) have len: "length key = 8" and r: "this_r this = bits128ToNum rx (clamp_key key) 0"
    by (simp_all add: poly1305_new_Inr)
  define w0 where "w0 = bits32 (key ! 0) AND NOT 0xf0"
  define w1 where "w1 = bits32 (key ! 1) AND NOT 0x30000f0"
  define w2 where "w2 = bits32 (key ! 2) AND NOT 0x30000f0"
  define w3 where "w3 = bits32 (key ! 3) AND NOT 0x30000f0"
  have same: "this_r this' = this_r this" using updates_r [OF assms(3)] by simp
  have v: "bn_val rx (this_r this') = le_int (bytes4 w0 @ bytes4 w1 @ bytes4 w2 @ bytes4 w3)"
    unfolding same r w0_def w1_def w2_def w3_def using r_words [OF assms(1) len] .
  have l: "length (bytes4 w) = 4" for w by (rule length_bytes4)
  have e0: "le_word32 (bn_val rx (this_r this')) 0 = le_int (bytes4 w0)"
    unfolding v using le_word32_le_int [of "[]" 0 "bytes4 w0" "bytes4 w1 @ bytes4 w2 @ bytes4 w3"]
    by (simp add: l)
  have e1: "le_word32 (bn_val rx (this_r this')) 1 = le_int (bytes4 w1)"
    unfolding v using le_word32_le_int [of "bytes4 w0" 1 "bytes4 w1" "bytes4 w2 @ bytes4 w3"]
    by (simp add: l)
  have e2: "le_word32 (bn_val rx (this_r this')) 2 = le_int (bytes4 w2)"
    unfolding v using le_word32_le_int [of "bytes4 w0 @ bytes4 w1" 2 "bytes4 w2" "bytes4 w3"]
    by (simp add: l)
  have e3: "le_word32 (bn_val rx (this_r this')) 3 = le_int (bytes4 w3)"
    unfolding v using le_word32_le_int [of "bytes4 w0 @ bytes4 w1 @ bytes4 w2" 3 "bytes4 w3" "[]"]
    by (simp add: l)
  have b: "0 \<le> bn_val rx (this_r this')" "bn_val rx (this_r this') < 2 ^ 128"
    unfolding v
    using le_int_nonneg [of "bytes4 w0 @ bytes4 w1 @ bytes4 w2 @ bytes4 w3"]
      le_int_lt_pow2 [of "bytes4 w0 @ bytes4 w1 @ bytes4 w2 @ bytes4 w3"]
    by (simp_all add: l)
  have "le_int (bytes4 w0) < 2 ^ 28"
    unfolding w0_def by (rule le_int_bytes4_lt [OF clamp0_low])
  then have c0: "le_word32 (bn_val rx (this_r this')) 0 < 2 ^ 28"
    by (simp only: e0)
  have "le_int (bytes4 w1) < 2 ^ 28" "le_int (bytes4 w2) < 2 ^ 28" "le_int (bytes4 w3) < 2 ^ 28"
    unfolding w1_def w2_def w3_def by (rule le_int_bytes4_lt [OF clamp1_low])+
  then have c1: "le_word32 (bn_val rx (this_r this')) 1 < 2 ^ 28"
    "le_word32 (bn_val rx (this_r this')) 2 < 2 ^ 28" "le_word32 (bn_val rx (this_r this')) 3 < 2 ^ 28"
    by (simp_all only: e1 e2 e3)
  have "le_int (bytes4 w1) mod 4 = 0" "le_int (bytes4 w2) mod 4 = 0" "le_int (bytes4 w3) mod 4 = 0"
    unfolding w1_def w2_def w3_def by (rule le_int_bytes4_mod4 [OF clamp1_high])+
  then have c2: "le_word32 (bn_val rx (this_r this')) 1 mod 4 = 0"
    "le_word32 (bn_val rx (this_r this')) 2 mod 4 = 0" "le_word32 (bn_val rx (this_r this')) 3 mod 4 = 0"
    by (simp_all only: e1 e2 e3)
  show ?thesis
    using same b c0 c1 c2 by (intro conjI) assumption+
qed

lemma r_all_ones:
  "bn_val 24 (bits128ToNum 24 (clamp_key (map (JSWord 32) [0xffffffff, 0xffffffff, 0xffffffff, 0xffffffff, 1, 2, 3, 4])) 0)
   = 0x0ffffffc0ffffffc0ffffffc0fffffff"
  by (simp add: r_words bytes4_def byte_at_def le_int_def)

theorem r_clamped_witness:
  "0 < (24::nat)
   \<and> (\<exists>this key' this'.
          poly1305_new 24 (map (JSWord 32) [0xffffffff, 0xffffffff, 0xffffffff, 0xffffffff, 1, 2, 3, 4])
            = Inr (this, key')
        \<and> updates 24 this [of_bytes [1, 2, 3]] = Some this'
        \<and> bn_val 24 (this_r this') = 0x0ffffffc0ffffffc0ffffffc0fffffff
        \<and> le_word32 (bn_val 24 (this_r this')) 0 < 2 ^ 28
        \<and> le_word32 (bn_val 24 (this_r this')) 1 mod 4 = 0)"
proof -
  obtain this key' where n: "poly1305_new 24 (map (JSWord 32) [0xffffffff, 0xffffffff, 0xffffffff, 0xffffffff, 1, 2, 3, 4])
            = Inr (this, key')"
    by (simp add: poly1305_new_Inr)
  obtain this' where u: "update 24 this (of_bytes [1, 2, 3]) = Some this'"
    using update_Some [of 24 this "[1, 2, 3]"] by auto
  then have us: "updates 24 this [of_bytes [1, 2, 3]] = Some this'"
    by (simp del: of_bytes.simps)
  have "this_r this = bits128ToNum 24 (clamp_key (map (JSWord 32) [0xffffffff, 0xffffffff, 0xffffffff, 0xffffffff, 1, 2, 3, 4])) 0"
    using n by (simp add: poly1305_new_Inr)
  then have "bn_val 24 (this_r this) = 0x0ffffffc0ffffffc0ffffffc0fffffff"
    by (simp only: r_all_ones)
  then show ?thesis
    using r_clamped [of 24, OF _ n us] n us by (auto simp del: of_bytes.simps)
qed

subsection \<open>The contexts that are reached\<close>

text \<open>
  Every context the constructor returns, and every context \<open>update\<close> calls with
  byte-aligned data lead to from there, has a buffer as \<open>buffer_ok\<close> says.
\<close>

lemma poly1305_new_buffer_ok: "poly1305_new rx key = Inr (this, key') \<Longrightarrow> buffer_ok this"
  by (auto simp add: poly1305_new_Inr buffer_ok_def)

lemma updates_buffer_ok:
  "buffer_ok this \<Longrightarrow> updates rx this (map of_bytes ms) = Some this' \<Longrightarrow> buffer_ok this'"
proof (induction ms arbitrary: this)
  case Nil
  then show ?case by simp
next
  case (Cons m ms)
  then show ?case
    by (auto split: option.splits dest: update_pending(4))
qed

subsection \<open>What is written\<close>

lemma bits128ToNum_st_eq:
  "bits128ToNum_st rx a offset st
   = (bits128ToNum rx (st ! a) offset, st @ [rev (byteswap (slice (st ! a) offset (offset + 4)))])"
  by (simp add: bits128ToNum_st_def alloc_def byteswap_st_def reverse_st_def bits128ToNum_def Let_def)

lemma clamp_st_eq:
  assumes "key < length st"
  shows "and_assign_st key 3 (NOT 0x30000f0) (and_assign_st key 2 (NOT 0x30000f0)
           (and_assign_st key 1 (NOT 0x30000f0) (and_assign_st key 0 (NOT 0xf0) st)))
         = st[key := clamp_key (st ! key)]"
  using assms by (simp add: and_assign_st_def clamp_key_def Let_def)

text \<open>The two arrays the constructor makes for \<open>r\<close> and \<open>s\<close> and leaves behind.\<close>

lemma poly1305_new_st_eq:
  assumes "key < length st"
  shows "poly1305_new_st rx key st =
     (case poly1305_new rx (st ! key) of
        Inl e \<Rightarrow> Inl e
      | Inr (this, key') \<Rightarrow> Inr (this, st[key := key'] @ key_slices key'))"
proof (cases "8 = length (st ! key)")
  case False
  then show ?thesis by (simp add: poly1305_new_st_def poly1305_new_def)
next
  case True
  have n: "(st[key := k] @ ts) ! key = k" for k ts
    using assms by (simp add: nth_append)
  show ?thesis
    unfolding poly1305_new_st_def poly1305_new_def Let_def clamp_st_eq [OF assms]
    using True assms by (simp add: bits128ToNum_st_eq key_slices_def n)
qed

lemma poly1305_new_st_Inr:
  assumes "key < length st"
  shows "poly1305_new_st rx key st = Inr (this, st') \<longleftrightarrow>
     length (st ! key) = 8 \<and> st' = st[key := clamp_key (st ! key)] @ key_slices (clamp_key (st ! key))
     \<and> this = \<lparr>this_r = bits128ToNum rx (clamp_key (st ! key)) 0,
                this_s = bits128ToNum rx (clamp_key (st ! key)) 4, this_h = [0], this_buffer = None\<rparr>"
  by (auto simp add: poly1305_new_st_eq [OF assms] poly1305_new_def Let_def)



subsection \<open>Key sizes\<close>

lemma poly1305_new_isl: "isl (poly1305_new rx key) \<longleftrightarrow> length key \<noteq> 8"
  by (simp add: poly1305_new_def Let_def)






subsection \<open>Who sees the clamp\<close>

lemma poly1305_call_st_Inr:
  assumes "key < length st" "poly1305_call_st rx key data st = Inr (tag, st')"
  shows "st' = st[key := clamp_key (st ! key)] @ key_slices (clamp_key (st ! key))"
  using assms(2)
  by (auto simp add: poly1305_call_st_def poly1305_new_st_Inr [OF assms(1)] split: sum.splits)

theorem aes_leaves_r:
  "map_sum id (\<lambda>(this, st'). take 4 st') (poly1305aes_new_st 24 (\<lambda>k n. n) 0 1 2
      [map (JSWord 32) [0xffffffff, 0xffffffff, 0xffffffff, 0xffffffff],
       map (JSWord 32) [0, 0, 0, 0], map (JSWord 32) [0, 0, 0, 0]])
   = Inr [map (JSWord 32) [0xffffffff, 0xffffffff, 0xffffffff, 0xffffffff],
          map (JSWord 32) [0, 0, 0, 0], map (JSWord 32) [0, 0, 0, 0],
          map (JSWord 32) [0xffffff0f, 0xfcffff0f, 0xfcffff0f, 0xfcffff0f, 0, 0, 0, 0]]
   \<and> clamp_key (map (JSWord 32) [0xffffffff, 0xffffffff, 0xffffffff, 0xffffffff])
       \<noteq> map (JSWord 32) [0xffffffff, 0xffffffff, 0xffffffff, 0xffffffff]"
  by (simp add: poly1305aes_new_st_def alloc_def poly1305_new_st_eq poly1305_new_def clamp_key_def
      and_assign_def Let_def)

text \<open>
  C10, amended. \<open>new poly1305(key)\<close> and the call \<open>poly1305(key, data)\<close> clamp the first
  four words of the caller's key array in place (the array is not copied, and \<open>r\<close> is
  read from the clamped words); no other array the caller holds is written.
  \<open>poly1305aes\<close>, as a constructor or as a plain call, builds the new array
  \<open>r.concat(s)\<close> and the clamp falls on that array: every array the caller holds, its
  \<open>r\<close> among them, is as before.
\<close>

theorem clamp_in_place:
  assumes "key < length st" and "data < length st"
    and "r < length st" and "ckey < length st" and "nonce < length st"
  shows "(poly1305_new_st rx key st = Inr (this, st')
      \<longrightarrow> take (length st) st' = st[key := clamp_key (st ! key)] \<and> st' ! key = clamp_key (st ! key)
          \<and> this_r this = bits128ToNum rx (st' ! key) 0)
   \<and> (poly1305_call_st rx key data st = Inr (tag, st'')
      \<longrightarrow> take (length st) st'' = st[key := clamp_key (st ! key)] \<and> st'' ! key = clamp_key (st ! key))
   \<and> (poly1305aes_new_st rx aes r ckey nonce st = Inr (athis, ast)
      \<longrightarrow> take (length st) ast = st \<and> ast ! r = st ! r
          \<and> ast ! length st = clamp_key (st ! r @ aes (st ! ckey) (st ! nonce)))
   \<and> (poly1305aes_call_st rx aes r ckey nonce data st = Inr (atag, ast')
      \<longrightarrow> take (length st) ast' = st \<and> ast' ! r = st ! r
          \<and> ast' ! length st = clamp_key (st ! r @ aes (st ! ckey) (st ! nonce)))"
proof -
  let ?k = "st ! r @ aes (st ! ckey) (st ! nonce)"
  have l: "length st < length (st @ [?k])" by simp
  have a: "poly1305aes_new_st rx aes r ckey nonce st = Inr (athis, ast)
      \<Longrightarrow> ast = st @ [clamp_key ?k] @ key_slices (clamp_key ?k)"
    by (auto simp add: poly1305aes_new_st_def alloc_def poly1305_new_st_Inr [OF l] Let_def split: if_splits)
  have b: "poly1305aes_call_st rx aes r ckey nonce data st = Inr (atag, ast')
      \<Longrightarrow> ast' = st @ [clamp_key ?k] @ key_slices (clamp_key ?k)"
    by (auto simp add: poly1305aes_call_st_def alloc_def Let_def split: if_splits
        dest!: poly1305_call_st_Inr [OF l])
  have c: "poly1305_new_st rx key st = Inr (this, st')
      \<Longrightarrow> st' = st[key := clamp_key (st ! key)] @ key_slices (clamp_key (st ! key))
          \<and> this_r this = bits128ToNum rx (clamp_key (st ! key)) 0"
    by (simp add: poly1305_new_st_Inr [OF assms(1)])
  have d: "poly1305_call_st rx key data st = Inr (tag, st'')
      \<Longrightarrow> st'' = st[key := clamp_key (st ! key)] @ key_slices (clamp_key (st ! key))"
    by (rule poly1305_call_st_Inr [OF assms(1)])
  show ?thesis
    using a b c d assms by (auto simp add: nth_append)
qed

theorem clamp_in_place_witness:
  "(\<exists>this st'. poly1305_new_st 24 0 [map (JSWord 32) [0xffffffff, 0xffffffff, 0xffffffff, 0xffffffff, 0, 0, 0, 0]]
        = Inr (this, st')
      \<and> take 1 st' = [map (JSWord 32) [0xffffff0f, 0xfcffff0f, 0xfcffff0f, 0xfcffff0f, 0, 0, 0, 0]])
   \<and> (\<exists>athis ast. poly1305aes_new_st 24 (\<lambda>k n. n) 0 1 2
          [map (JSWord 32) [0xffffffff, 0xffffffff, 0xffffffff, 0xffffffff],
           map (JSWord 32) [0, 0, 0, 0], map (JSWord 32) [0, 0, 0, 0]] = Inr (athis, ast)
      \<and> take 3 ast = [map (JSWord 32) [0xffffffff, 0xffffffff, 0xffffffff, 0xffffffff],
           map (JSWord 32) [0, 0, 0, 0], map (JSWord 32) [0, 0, 0, 0]])"
proof -
  let ?K = "map (JSWord 32) [0xffffffff, 0xffffffff, 0xffffffff, 0xffffffff, 0, 0, 0, 0]"
  let ?st = "[map (JSWord 32) [0xffffffff, 0xffffffff, 0xffffffff, 0xffffffff],
           map (JSWord 32) [0, 0, 0, 0], map (JSWord 32) [0, 0, 0, 0]]"
  obtain this st' where a: "poly1305_new_st 24 0 [?K] = Inr (this, st')"
    by (simp add: poly1305_new_st_Inr)
  obtain athis ast where b: "poly1305aes_new_st 24 (\<lambda>k n. n) 0 1 2 ?st = Inr (athis, ast)"
    by (simp add: poly1305aes_new_st_def alloc_def poly1305_new_st_Inr)
  have "take 1 st' = [clamp_key ?K]"
    using clamp_in_place [where rx = 24 and key = 0 and data = 0 and r = 0 and ckey = 0 and nonce = 0
        and st = "[?K]" and this = this and st' = st', THEN conjunct1] a
    by simp
  moreover have "take 3 ast = ?st"
    using clamp_in_place [where rx = 24 and aes = "\<lambda>k n. n" and key = 0 and data = 0 and r = 0
        and ckey = 1 and nonce = 2 and st = ?st and athis = athis and ast = ast,
        THEN conjunct2, THEN conjunct2, THEN conjunct1] b
    by (simp add: numeral_3_eq_3)
  ultimately show ?thesis
    using a b by (simp add: clamp_key_def and_assign_def)
qed

subsection \<open>What finalize and update write\<close>

lemma finalize_Some:
  assumes "0 < rx" "buffer_ok this"
  shows "\<exists>t. finalize rx this = Some t"
  using finalize_h_Some [OF assms] by (auto simp add: finalize_def)

lemma bA_equal_refl: "bA_equal t t"
  by (simp add: bA_equal_def)

lemma bits128ToNum_hp_eq:
  "bits128ToNum_hp rx a offset hp
   = (length (numbers hp),
      hp\<lparr>arrays := arrays hp @ [rev (byteswap (slice (arrays hp ! a) offset (offset + 4)))],
         numbers := numbers hp @ [bits128ToNum rx (arrays hp ! a) offset]\<rparr>)"
  by (simp add: bits128ToNum_hp_def new_array_def byteswap_hp_def reverse_hp_def write_array_def
      fromBits_hp_def new_number_def bits128ToNum_def Let_def)

lemmas hp_defs = new_array_def new_number_def new_context_def write_array_def write_number_def
  write_context_def byteswap_hp_def reverse_hp_def fromBits_hp_def copy_hp_def addM_hp_def
  cnormalize_hp_def mul_hp_def fullReduce_hp_def toBits_hp_def add_limb_hp_def absorb_hp_def

text \<open>
  The round writes the number it is given: run on the accumulator itself, as \<open>update\<close>
  runs it, it leaves the context with another \<open>h\<close>. That \<open>finalize\<close> does not is due to
  \<open>this._h.copy()\<close>.
\<close>

lemma round_writes_accumulator:
  "the_context (snd (absorb_hp 24 2 1 0
      \<lparr>arrays = [], numbers = [[2], [5], [0]],
       contexts = [\<lparr>ref_r = 0, ref_s = 1, ref_h = 2, ref_buffer = None\<rparr>]\<rparr>)) 0
   = \<lparr>this_r = [2], this_s = [5], this_h = [5], this_buffer = None\<rparr>
   \<and> the_context \<lparr>arrays = [], numbers = [[2], [5], [0]],
       contexts = [\<lparr>ref_r = 0, ref_s = 1, ref_h = 2, ref_buffer = None\<rparr>]\<rparr> 0
   = \<lparr>this_r = [2], this_s = [5], this_h = [0], this_buffer = None\<rparr>"
  by (simp add: the_context_def absorb_hp_def addM_hp_def cnormalize_hp_def mul_hp_def write_number_def
      new_number_def cnormalize_def limbs_of_def bn_val_def Let_def)

lemma finalize_hp_eq:
  assumes "context_ok hp this"
  shows "case finalize rx (the_context hp this) of
           None \<Rightarrow> finalize_hp rx this hp = None
         | Some t \<Rightarrow> \<exists>k hp'. finalize_hp rx this hp = Some (k, hp')
             \<and> contexts hp' = contexts hp \<and> (\<exists>ns. numbers hp' = numbers hp @ ns)
             \<and> (\<exists>as. arrays hp' = arrays hp @ as) \<and> k < length (arrays hp') \<and> arrays hp' ! k = t"
proof (cases "ref_buffer (contexts hp ! this)")
  case None
  then show ?thesis
    using assms
    by (simp add: finalize_hp_def finalize_def finalize_h_def the_context_def context_ok_def hp_defs
        Let_def nth_append)
next
  case (Some data)
  show ?thesis
  proof (cases "add_limb (bits128ToNum rx (arrays hp ! data) 0) (bitLength (arrays hp ! data) div rx)
      (shl1 (bitLength (arrays hp ! data) mod rx))")
    case None
    then show ?thesis
      using assms Some
      by (simp add: finalize_hp_def finalize_def finalize_h_def the_context_def context_ok_def
          bits128ToNum_hp_eq hp_defs Let_def nth_append)
  next
    case (Some ci)
    then show ?thesis
      using assms \<open>ref_buffer (contexts hp ! this) = Some data\<close>
      by (simp add: finalize_hp_def finalize_def finalize_h_def the_context_def context_ok_def
          bits128ToNum_hp_eq hp_defs Let_def nth_append absorb_def list_update_append)
  qed
qed

declare update_loop_hp.simps [simp del]

lemma round_hp_eq:
  assumes "h < length (numbers hp)" "r < length (numbers hp)" "h \<noteq> r"
    and "add_limb (bits128ToNum rx (arrays hp ! data) i) ndx v = Some ci"
  shows "(case bits128ToNum_hp rx data i hp of
            (c, hp1) \<Rightarrow> (case add_limb_hp c ndx v hp1 of
                           None \<Rightarrow> None
                         | Some hp2 \<Rightarrow> Some (absorb_hp rx h c r hp2)))
         = Some (Suc (length (numbers hp)),
                 hp\<lparr>arrays := arrays hp @ [rev (byteswap (slice (arrays hp ! data) i (i + 4)))],
                    numbers := (numbers hp)[h := cnormalize rx (addM (numbers hp ! h) ci)]
                               @ [ci, absorb rx (numbers hp ! h) ci (numbers hp ! r)]\<rparr>)"
  using assms
  by (simp add: bits128ToNum_hp_eq hp_defs Let_def nth_append list_update_append absorb_def)

lemma update_loop_hp_eq:
  "h < length (numbers hp) \<Longrightarrow> r < length (numbers hp) \<Longrightarrow> data < length (arrays hp) \<Longrightarrow> h \<noteq> r \<Longrightarrow>
   (case update_loop rx (arrays hp ! data) (numbers hp ! r) l i (numbers hp ! h) of
      None \<Rightarrow> update_loop_hp rx data r l i h hp = None
    | Some (i', hv) \<Rightarrow> \<exists>h' hp'. update_loop_hp rx data r l i h hp = Some (i', h', hp')
        \<and> contexts hp' = contexts hp
        \<and> (\<exists>as. arrays hp' = arrays hp @ as)
        \<and> length (numbers hp) \<le> length (numbers hp')
        \<and> (\<forall>n < length (numbers hp). n \<noteq> h \<longrightarrow> numbers hp' ! n = numbers hp ! n)
        \<and> h' < length (numbers hp') \<and> (h' = h \<or> length (numbers hp) \<le> h') \<and> numbers hp' ! h' = hv)"
proof (induction rx data r l i h hp rule: update_loop_hp.induct)
  case (1 rx data r l i h hp)
  show ?case
  proof (cases "i < l")
    case False
    have a: "update_loop_hp rx data r l i h hp = Some (i, h, hp)"
      using False by (subst update_loop_hp.simps) simp
    have b: "update_loop rx (arrays hp ! data) (numbers hp ! r) l i (numbers hp ! h) = Some (i, numbers hp ! h)"
      using False by (subst update_loop.simps) simp
    show ?thesis
      unfolding a b using "1.prems" by simp
  next
    case True
    show ?thesis
    proof (cases "add_limb (bits128ToNum rx (arrays hp ! data) i) (bit129ndx rx) (bit129value rx)")
      case None
      have a: "update_loop_hp rx data r l i h hp = None"
        using True None by (subst update_loop_hp.simps) (simp add: bits128ToNum_hp_eq add_limb_hp_def)
      have b: "update_loop rx (arrays hp ! data) (numbers hp ! r) l i (numbers hp ! h) = None"
        using True None by (subst update_loop.simps) simp
      show ?thesis
        unfolding a b by simp
    next
      case (Some ci)
      define h2 where "h2 = Suc (length (numbers hp))"
      define hp1 where "hp1 = snd (bits128ToNum_hp rx data i hp)"
      define hp2 where "hp2 = write_number (length (numbers hp)) ci hp1"
      define hp3 where "hp3 = hp\<lparr>arrays := arrays hp @ [rev (byteswap (slice (arrays hp ! data) i (i + 4)))],
                    numbers := (numbers hp)[h := cnormalize rx (addM (numbers hp ! h) ci)]
                               @ [ci, absorb rx (numbers hp ! h) ci (numbers hp ! r)]\<rparr>"
      have s1: "(length (numbers hp), hp1) = bits128ToNum_hp rx data i hp"
        by (simp add: hp1_def bits128ToNum_hp_eq)
      have s2: "add_limb_hp (length (numbers hp)) (bit129ndx rx) (bit129value rx) hp1 = Some hp2"
        using Some by (simp add: hp1_def hp2_def bits128ToNum_hp_eq add_limb_hp_def)
      have s3: "(h2, hp3) = absorb_hp rx h (length (numbers hp)) r hp2"
        using round_hp_eq [OF "1.prems"(1,2,4) Some] s2
        by (simp add: bits128ToNum_hp_eq h2_def hp3_def hp1_def)
      have p: "h2 < length (numbers hp3)" "r < length (numbers hp3)" "data < length (arrays hp3)" "h2 \<noteq> r"
        using "1.prems" by (simp_all add: h2_def hp3_def)
      have v: "arrays hp3 ! data = arrays hp ! data" "numbers hp3 ! r = numbers hp ! r"
        "numbers hp3 ! h2 = absorb rx (numbers hp ! h) ci (numbers hp ! r)"
        using "1.prems" by (simp_all add: h2_def hp3_def nth_append)
      have u: "update_loop_hp rx data r l i h hp = update_loop_hp rx data r l (i + 4) h2 hp3"
        using True s1 [symmetric] s2 s3 [symmetric] by (subst update_loop_hp.simps) simp
      have w: "update_loop rx (arrays hp ! data) (numbers hp ! r) l i (numbers hp ! h)
          = update_loop rx (arrays hp3 ! data) (numbers hp3 ! r) l (i + 4) (numbers hp3 ! h2)"
        using True Some by (subst update_loop.simps) (simp add: v)
      have f: "contexts hp3 = contexts hp" "\<exists>as. arrays hp3 = arrays hp @ as"
        "length (numbers hp) \<le> length (numbers hp3)"
        "\<forall>n < length (numbers hp). n \<noteq> h \<longrightarrow> numbers hp3 ! n = numbers hp ! n"
        "length (numbers hp) \<le> h2"
        using "1.prems" by (simp_all add: h2_def hp3_def nth_append)
      note ih = "1.IH" [OF True s1 s2 s3 p]
      show ?thesis
        unfolding u w using ih f
        by (auto split: option.splits)
    qed
  qed
qed

lemma update_hp_eq:
  assumes "context_ok hp this" "data < length (arrays hp)"
  shows "case update rx (the_context hp this) (arrays hp ! data) of
           None \<Rightarrow> update_hp rx this data hp = None
         | Some v \<Rightarrow> \<exists>hp'. update_hp rx this data hp = Some hp' \<and> the_context hp' this = v
             \<and> (buffer_ok v \<longrightarrow> context_ok hp' this)"
proof -
  define c where "c = contexts hp ! this"
  define p where "p = (case ref_buffer c of
               Some b \<Rightarrow>
                 (let (d, hp) = new_array (bA_concat (arrays hp ! b) (arrays hp ! data)) hp
                  in (d, write_context this ((contexts hp ! this)\<lparr>ref_buffer := None\<rparr>) hp))
             | None \<Rightarrow> (data, hp))"
  define d0 where "d0 = fst p"
  define hp0 where "hp0 = snd p"
  define dv where "dv = (case this_buffer (the_context hp this) of
      Some b \<Rightarrow> bA_concat b (arrays hp ! data) | None \<Rightarrow> arrays hp ! data)"
  have ok: "this < length (contexts hp)" "ref_r c < length (numbers hp)" "ref_s c < length (numbers hp)"
    "ref_h c < length (numbers hp)" "ref_h c \<noteq> ref_r c" "ref_h c \<noteq> ref_s c"
    "case ref_buffer c of None \<Rightarrow> True | Some b \<Rightarrow> b < length (arrays hp)"
    using assms(1) by (simp_all add: context_ok_def c_def Let_def)
  have p0: "numbers hp0 = numbers hp" "length (contexts hp0) = length (contexts hp)"
    "contexts hp0 ! this = c\<lparr>ref_buffer := None\<rparr>" "d0 < length (arrays hp0)" "arrays hp0 ! d0 = dv"
    using ok assms(2)
    by (auto simp add: hp0_def d0_def p_def dv_def the_context_def c_def [symmetric] hp_defs Let_def
        nth_append split: option.splits)
  have u0: "update_hp rx this data hp =
      (case update_loop_hp rx d0 (ref_r c) (full_words (arrays hp0 ! d0)) 0 (ref_h c) hp0 of
           None \<Rightarrow> None
         | Some (i, h, hp) \<Rightarrow>
             (let hp = (if i < length (arrays hp ! d0)
                        then (let (b, hp) = new_array (drop i (arrays hp ! d0)) hp
                              in write_context this ((contexts hp ! this)\<lparr>ref_buffer := Some b\<rparr>) hp)
                        else hp)
              in Some (write_context this ((contexts hp ! this)\<lparr>ref_h := h\<rparr>) hp)))"
    by (cases "ref_buffer c")
      (simp_all add: update_hp_def c_def [symmetric] d0_def hp0_def p_def Let_def split_beta
        cong: option.case_cong if_cong)
  note u = u0 [unfolded p0(5)]
  have v: "update rx (the_context hp this) (arrays hp ! data) =
      (case update_loop rx dv (numbers hp ! ref_r c) (full_words dv) 0 (numbers hp ! ref_h c) of
           None \<Rightarrow> None
         | Some (i, h) \<Rightarrow>
             Some (\<lparr>this_r = numbers hp ! ref_r c, this_s = numbers hp ! ref_s c, this_h = h,
                    this_buffer = (if i < length dv then Some (drop i dv) else None)\<rparr>))"
    by (simp add: update_def dv_def the_context_def c_def [symmetric] Let_def split: option.splits)
  note l = update_loop_hp_eq [of "ref_h c" hp0 "ref_r c" d0 rx "full_words dv" 0, unfolded p0]
  show ?thesis
  proof (cases "update_loop rx dv (numbers hp ! ref_r c) (full_words dv) 0 (numbers hp ! ref_h c)")
    case None
    then show ?thesis
      using l ok p0(4) unfolding u v by simp
  next
    case (Some q)
    obtain i hv where q: "q = (i, hv)" by (cases q)
    obtain h' hp' where r: "update_loop_hp rx d0 (ref_r c) (full_words dv) 0 (ref_h c) hp0 = Some (i, h', hp')"
      "contexts hp' = contexts hp0" "\<exists>as. arrays hp' = arrays hp0 @ as"
      "length (numbers hp) \<le> length (numbers hp')"
      "\<forall>n < length (numbers hp). n \<noteq> ref_h c \<longrightarrow> numbers hp' ! n = numbers hp ! n"
      "h' < length (numbers hp')" "h' = ref_h c \<or> length (numbers hp) \<le> h'" "numbers hp' ! h' = hv"
      using l ok p0(4) Some q by auto
    have a: "arrays hp' ! d0 = dv"
      using r(3) p0(4,5) by (auto simp add: nth_append)
    have n: "numbers hp' ! ref_r c = numbers hp ! ref_r c" "numbers hp' ! ref_s c = numbers hp ! ref_s c"
      "h' \<noteq> ref_r c" "h' \<noteq> ref_s c" "ref_r c < length (numbers hp')" "ref_s c < length (numbers hp')"
      using r(4,5,7) ok by auto
    show ?thesis
      unfolding u v Some q r(1)
      using a n r(2,6,8) p0(2,3) ok(1)
      by (simp add: hp_defs Let_def the_context_def context_ok_def nth_append)
  qed
qed

lemma context_extends:
  assumes "context_ok hp this" "contexts hp' = contexts hp" "numbers hp' = numbers hp @ ns"
    "arrays hp' = arrays hp @ as"
  shows "the_context hp' this = the_context hp this" "context_ok hp' this"
proof -
  show a: "the_context hp' this = the_context hp this"
    using assms
    by (auto simp add: the_context_def context_ok_def Let_def nth_append split: option.splits)
  show "context_ok hp' this"
    using assms(1)
    unfolding context_ok_def a
    by (auto simp add: assms(2,3,4) Let_def split: option.splits)
qed

lemma context_new_array:
  assumes "context_ok hp this" "new_array a hp = (d, hp')"
  shows "the_context hp' this = the_context hp this" "context_ok hp' this"
    "d < length (arrays hp')" "arrays hp' ! d = a"
  using assms(2) context_extends [OF assms(1), of hp' "[]" "[a]"]
  by (auto simp add: new_array_def)

lemma finalize_hp_Some:
  assumes "0 < rx" "context_ok hp this"
  shows "\<exists>t hp'. finalize_hp rx this hp = Some (t, hp')
      \<and> Some (arrays hp' ! t) = finalize rx (the_context hp this)
      \<and> contexts hp' = contexts hp \<and> (\<exists>ns. numbers hp' = numbers hp @ ns)
      \<and> (\<exists>as. arrays hp' = arrays hp @ as)"
proof -
  have "buffer_ok (the_context hp this)"
    using assms(2) by (simp add: context_ok_def Let_def)
  then obtain t where "finalize rx (the_context hp this) = Some t"
    using finalize_Some [OF assms(1)] by blast
  then show ?thesis
    using finalize_hp_eq [OF assms(2), of rx] by auto
qed

lemma verify_hp_Some:
  assumes "0 < rx" "context_ok hp this" "tag < length (arrays hp)"
  shows "\<exists>b hp'. verify_hp rx this tag hp = Some (b, hp')
      \<and> Some b = verify rx (the_context hp this) (arrays hp ! tag)
      \<and> contexts hp' = contexts hp \<and> (\<exists>ns. numbers hp' = numbers hp @ ns)
      \<and> (\<exists>as. arrays hp' = arrays hp @ as)"
proof -
  obtain t hp' where f: "finalize_hp rx this hp = Some (t, hp')"
    "Some (arrays hp' ! t) = finalize rx (the_context hp this)"
    "contexts hp' = contexts hp" "\<exists>ns. numbers hp' = numbers hp @ ns" "\<exists>as. arrays hp' = arrays hp @ as"
    using finalize_hp_Some [OF assms(1,2)] by blast
  have "arrays hp' ! tag = arrays hp ! tag"
    using f(5) assms(3) by (auto simp add: nth_append)
  then show ?thesis
    using f by (simp add: verify_hp_def verify_def f(2) [symmetric])
qed

lemma update_hp_Some:
  assumes "0 < rx" "context_ok hp this" "data < length (arrays hp)" "arrays hp ! data = of_bytes m"
  shows "\<exists>hp'. update_hp rx this data hp = Some hp' \<and> context_ok hp' this
      \<and> update rx (the_context hp this) (of_bytes m) = Some (the_context hp' this)"
proof -
  obtain v where v: "update rx (the_context hp this) (of_bytes m) = Some v"
    using update_Some [OF assms(1)] by blast
  have "buffer_ok v"
    using update_pending(4) [OF v] .
  then show ?thesis
    using update_hp_eq [OF assms(2,3), of rx] v by (auto simp add: assms(4))
qed

lemma poly1305_new_hp_ok:
  assumes "key < length (arrays hp)" "poly1305_new_hp rx key hp = Inr (this, hp')"
  shows "context_ok hp' this" "poly1305_new rx (arrays hp ! key) = Inr (the_context hp' this, arrays hp' ! key)"
proof -
  have l: "length (arrays hp ! key) = 8"
    using assms(2) by (auto simp add: poly1305_new_hp_def split: if_splits)
  have e: "this = length (contexts hp) \<and> hp' = hp\<lparr>arrays := (arrays hp)[key := clamp_key (arrays hp ! key)]
          @ key_slices (clamp_key (arrays hp ! key)),
        numbers := numbers hp @ [bits128ToNum rx (clamp_key (arrays hp ! key)) 0,
          bits128ToNum rx (clamp_key (arrays hp ! key)) 4, [0]],
        contexts := contexts hp @ [\<lparr>ref_r = length (numbers hp), ref_s = Suc (length (numbers hp)),
          ref_h = Suc (Suc (length (numbers hp))), ref_buffer = None\<rparr>]\<rparr>"
    using assms(2) l unfolding poly1305_new_hp_def Let_def
    using assms(1)
    by (simp add: bits128ToNum_hp_eq and_assign_st_def clamp_key_def new_number_def new_context_def
        key_slices_def nth_append)
  show "context_ok hp' this"
    by (simp add: e context_ok_def the_context_def buffer_ok_def Let_def nth_append)
  show "poly1305_new rx (arrays hp ! key) = Inr (the_context hp' this, arrays hp' ! key)"
    using assms(1) l by (simp add: e poly1305_new_def the_context_def Let_def nth_append)
qed

subsection \<open>Sequences of calls\<close>

lemma run_hp_due:
  assumes "0 < rx"
  shows "context_ok hp this \<Longrightarrow> update rx c0 (of_bytes acc) = Some (the_context hp this) \<Longrightarrow>
     \<exists>as hp'. run_hp rx this cs hp = Some (as, hp') \<and> context_ok hp' this
        \<and> update rx c0 (of_bytes (acc @ fed cs)) = Some (the_context hp' this)
        \<and> map Some as = due rx c0 acc cs"
proof (induction cs arbitrary: hp acc)
  case Nil
  then show ?case by simp
next
  case (Cons c cs)
  show ?case
  proof (cases c)
    case (Update m)
    obtain d hp1 where n: "new_array (of_bytes m) hp = (d, hp1)"
      by (cases "new_array (of_bytes m) hp")
    note a = context_new_array [OF Cons.prems(1) n]
    obtain hp2 where u: "update_hp rx this d hp1 = Some hp2" "context_ok hp2 this"
      "update rx (the_context hp this) (of_bytes m) = Some (the_context hp2 this)"
      using update_hp_Some [OF assms a(2,3,4)] a(1) by auto
    have "update rx c0 (of_bytes (acc @ m)) = Some (the_context hp2 this)"
      using update_append [of rx c0 acc m] Cons.prems(2) u(3) by simp
    from Cons.IH [OF u(2) this] obtain as hp' where "run_hp rx this cs hp2 = Some (as, hp')"
      "context_ok hp' this" "update rx c0 (of_bytes ((acc @ m) @ fed cs)) = Some (the_context hp' this)"
      "map Some as = due rx c0 (acc @ m) cs"
      by blast
    then show ?thesis
      by (simp add: Update n u(1))
  next
    case Finalize
    obtain t hp1 where f: "finalize_hp rx this hp = Some (t, hp1)"
      "Some (arrays hp1 ! t) = finalize rx (the_context hp this)"
      "contexts hp1 = contexts hp" "\<exists>ns. numbers hp1 = numbers hp @ ns" "\<exists>as. arrays hp1 = arrays hp @ as"
      using finalize_hp_Some [OF assms Cons.prems(1)] by blast
    obtain ns as where x: "numbers hp1 = numbers hp @ ns" "arrays hp1 = arrays hp @ as"
      using f(4,5) by blast
    note a = context_extends [OF Cons.prems(1) f(3) x]
    have t: "tag_of rx c0 acc = Some (arrays hp1 ! t)"
      by (simp add: tag_of_def Cons.prems(2) f(2))
    have "update rx c0 (of_bytes acc) = Some (the_context hp1 this)"
      using Cons.prems(2) a(1) by simp
    from Cons.IH [OF a(2) this] obtain as hp' where "run_hp rx this cs hp1 = Some (as, hp')"
      "context_ok hp' this" "update rx c0 (of_bytes (acc @ fed cs)) = Some (the_context hp' this)"
      "map Some as = due rx c0 acc cs"
      by blast
    then show ?thesis
      by (simp add: Finalize f(1) t)
  next
    case (Verify tag)
    obtain g hp1 where n: "new_array tag hp = (g, hp1)"
      by (cases "new_array tag hp")
    note a = context_new_array [OF Cons.prems(1) n]
    obtain b hp2 where f: "verify_hp rx this g hp1 = Some (b, hp2)"
      "Some b = verify rx (the_context hp1 this) (arrays hp1 ! g)"
      "contexts hp2 = contexts hp1" "\<exists>ns. numbers hp2 = numbers hp1 @ ns" "\<exists>as. arrays hp2 = arrays hp1 @ as"
      using verify_hp_Some [OF assms a(2,3)] by blast
    obtain ns as where x: "numbers hp2 = numbers hp1 @ ns" "arrays hp2 = arrays hp1 @ as"
      using f(4,5) by blast
    note e = context_extends [OF a(2) f(3) x]
    have "buffer_ok (the_context hp this)"
      using Cons.prems(1) by (simp add: context_ok_def Let_def)
    then obtain t where "finalize rx (the_context hp this) = Some t"
      using finalize_Some [OF assms] by blast
    then have t: "map_option (\<lambda>t. Verdict (bA_equal t tag)) (tag_of rx c0 acc) = Some (Verdict b)"
      using f(2) by (simp add: tag_of_def Cons.prems(2) a(1,4) verify_def)
    have "update rx c0 (of_bytes acc) = Some (the_context hp2 this)"
      using Cons.prems(2) a(1) e(1) by simp
    from Cons.IH [OF e(2) this] obtain as hp' where "run_hp rx this cs hp2 = Some (as, hp')"
      "context_ok hp' this" "update rx c0 (of_bytes (acc @ fed cs)) = Some (the_context hp' this)"
      "map Some as = due rx c0 acc cs"
      by blast
    then show ?thesis
      by (simp add: Verify n f(1) t)
  qed
qed

text \<open>
  C5. On a context as the constructor and \<open>update\<close> leave it, \<open>finalize\<close> returns the tag
  and \<open>verify\<close> its verdict, and after either the context holds the same references,
  every number and every array that existed before the call is as it was (the
  accumulator and the pending buffer among them), so the context stands for the same
  \<open>r\<close>, \<open>s\<close>, \<open>h\<close> and buffer: the calls only add objects of their own. Every sequence of
  \<open>update\<close>, \<open>finalize\<close> and \<open>verify\<close> calls returns; each \<open>finalize\<close> in it returns the
  tag of the bytes fed so far and each \<open>verify\<close> compares its argument with that tag,
  however many of them came before; the context the sequence leaves is the one a single
  \<open>update\<close> with all the bytes leaves, as if no \<open>finalize\<close> or \<open>verify\<close> had been called.
  In particular \<open>finalize\<close> called twice gives the same tag twice, and \<open>verify\<close> accepts
  it.
\<close>

theorem finalize_verify_pure:
  assumes "0 < rx" and "context_ok hp this" and "tag < length (arrays hp)"
  shows "(\<exists>t hp'. finalize_hp rx this hp = Some (t, hp')
            \<and> Some (arrays hp' ! t) = finalize rx (the_context hp this)
            \<and> the_context hp' this = the_context hp this
            \<and> contexts hp' = contexts hp
            \<and> take (length (numbers hp)) (numbers hp') = numbers hp
            \<and> take (length (arrays hp)) (arrays hp') = arrays hp)
   \<and> (\<exists>b hp'. verify_hp rx this tag hp = Some (b, hp')
            \<and> Some b = verify rx (the_context hp this) (arrays hp ! tag)
            \<and> the_context hp' this = the_context hp this
            \<and> contexts hp' = contexts hp
            \<and> take (length (numbers hp)) (numbers hp') = numbers hp
            \<and> take (length (arrays hp)) (arrays hp') = arrays hp)
   \<and> (\<exists>as hp'. run_hp rx this cs hp = Some (as, hp')
            \<and> update rx (the_context hp this) (of_bytes (fed cs)) = Some (the_context hp' this)
            \<and> map Some as = due rx (the_context hp this) [] cs)
   \<and> (\<exists>t hp'. run_hp rx this [Finalize, Verify t, Finalize] hp = Some ([Tag t, Verdict True, Tag t], hp')
            \<and> the_context hp' this = the_context hp this)"
proof -
  let ?c = "the_context hp this"
  have ok: "buffer_ok ?c"
    using assms(2) by (simp add: context_ok_def Let_def)
  have e: "update rx ?c (of_bytes []) = Some ?c"
    using update_empty [OF ok] by simp
  obtain t hp1 where f: "finalize_hp rx this hp = Some (t, hp1)"
    "Some (arrays hp1 ! t) = finalize rx ?c"
    "contexts hp1 = contexts hp" "\<exists>ns. numbers hp1 = numbers hp @ ns" "\<exists>as. arrays hp1 = arrays hp @ as"
    using finalize_hp_Some [OF assms(1,2)] by blast
  obtain ns as where x: "numbers hp1 = numbers hp @ ns" "arrays hp1 = arrays hp @ as"
    using f(4,5) by blast
  have a: "\<exists>t hp'. finalize_hp rx this hp = Some (t, hp')
            \<and> Some (arrays hp' ! t) = finalize rx ?c \<and> the_context hp' this = ?c
            \<and> contexts hp' = contexts hp
            \<and> take (length (numbers hp)) (numbers hp') = numbers hp
            \<and> take (length (arrays hp)) (arrays hp') = arrays hp"
    using f(1,2,3) x context_extends(1) [OF assms(2) f(3) x] by simp
  obtain b hp2 where v: "verify_hp rx this tag hp = Some (b, hp2)"
    "Some b = verify rx ?c (arrays hp ! tag)"
    "contexts hp2 = contexts hp" "\<exists>ns. numbers hp2 = numbers hp @ ns" "\<exists>as. arrays hp2 = arrays hp @ as"
    using verify_hp_Some [OF assms] by blast
  obtain ns' as' where y: "numbers hp2 = numbers hp @ ns'" "arrays hp2 = arrays hp @ as'"
    using v(4,5) by blast
  have b: "\<exists>b hp'. verify_hp rx this tag hp = Some (b, hp')
            \<and> Some b = verify rx ?c (arrays hp ! tag) \<and> the_context hp' this = ?c
            \<and> contexts hp' = contexts hp
            \<and> take (length (numbers hp)) (numbers hp') = numbers hp
            \<and> take (length (arrays hp)) (arrays hp') = arrays hp"
    using v(1,2,3) y context_extends(1) [OF assms(2) v(3) y] by simp
  have c: "\<exists>as hp'. run_hp rx this cs hp = Some (as, hp')
            \<and> update rx ?c (of_bytes (fed cs)) = Some (the_context hp' this)
            \<and> map Some as = due rx ?c [] cs" for cs
    using run_hp_due [OF assms(1,2) e, of cs] by auto
  obtain u where u: "finalize rx ?c = Some u"
    using finalize_Some [OF assms(1) ok] by blast
  obtain as3 hp3 where r: "run_hp rx this [Finalize, Verify u, Finalize] hp = Some (as3, hp3)"
    "update rx ?c (of_bytes (fed [Finalize, Verify u, Finalize])) = Some (the_context hp3 this)"
    "map Some as3 = due rx ?c [] [Finalize, Verify u, Finalize]"
    using c [of "[Finalize, Verify u, Finalize]"] by blast
  have "tag_of rx ?c [] = Some u"
    using e u by (simp add: tag_of_def del: of_bytes.simps)
  then have "map Some as3 = map Some [Tag u, Verdict True, Tag u]"
    using r(3) by (simp add: bA_equal_refl)
  then have "as3 = [Tag u, Verdict True, Tag u]"
    by (simp only: inj_map_eq_map [OF inj_Some])
  moreover have "the_context hp3 this = ?c"
    using r(2) e by (simp del: of_bytes.simps)
  ultimately have d: "\<exists>t hp'. run_hp rx this [Finalize, Verify t, Finalize] hp
        = Some ([Tag t, Verdict True, Tag t], hp') \<and> the_context hp' this = ?c"
    using r(1) by blast
  show ?thesis
    using a b c [of cs] d by blast
qed

theorem finalize_verify_pure_witness:
  "0 < (24::nat)
   \<and> context_ok \<lparr>arrays = [of_bytes [7], of_bytes [1, 2]], numbers = [[2], [5], [0]],
        contexts = [\<lparr>ref_r = 0, ref_s = 1, ref_h = 2, ref_buffer = Some 0\<rparr>]\<rparr> 0
   \<and> (\<exists>t hp'. finalize_hp 24 0 \<lparr>arrays = [of_bytes [7], of_bytes [1, 2]], numbers = [[2], [5], [0]],
          contexts = [\<lparr>ref_r = 0, ref_s = 1, ref_h = 2, ref_buffer = Some 0\<rparr>]\<rparr> = Some (t, hp')
        \<and> contexts hp' = [\<lparr>ref_r = 0, ref_s = 1, ref_h = 2, ref_buffer = Some 0\<rparr>]
        \<and> take 3 (numbers hp') = [[2], [5], [0]]
        \<and> take 2 (arrays hp') = [of_bytes [7], of_bytes [1, 2]])
   \<and> (\<exists>b hp'. verify_hp 24 0 1 \<lparr>arrays = [of_bytes [7], of_bytes [1, 2]], numbers = [[2], [5], [0]],
          contexts = [\<lparr>ref_r = 0, ref_s = 1, ref_h = 2, ref_buffer = Some 0\<rparr>]\<rparr> = Some (b, hp')
        \<and> contexts hp' = [\<lparr>ref_r = 0, ref_s = 1, ref_h = 2, ref_buffer = Some 0\<rparr>]
        \<and> take 3 (numbers hp') = [[2], [5], [0]]
        \<and> take 2 (arrays hp') = [of_bytes [7], of_bytes [1, 2]])
   \<and> (\<exists>as hp'. run_hp 24 0 [Finalize, Update [1, 2, 3], Finalize, Update [4], Finalize]
          \<lparr>arrays = [of_bytes [7], of_bytes [1, 2]], numbers = [[2], [5], [0]],
           contexts = [\<lparr>ref_r = 0, ref_s = 1, ref_h = 2, ref_buffer = Some 0\<rparr>]\<rparr> = Some (as, hp')
        \<and> update 24 \<lparr>this_r = [2], this_s = [5], this_h = [0], this_buffer = Some (of_bytes [7])\<rparr>
             (of_bytes [1, 2, 3, 4]) = Some (the_context hp' 0)
        \<and> map Some as
           = [map_option Tag (tag_of 24 \<lparr>this_r = [2], this_s = [5], this_h = [0], this_buffer = Some (of_bytes [7])\<rparr> []),
              map_option Tag (tag_of 24 \<lparr>this_r = [2], this_s = [5], this_h = [0], this_buffer = Some (of_bytes [7])\<rparr> [1, 2, 3]),
              map_option Tag (tag_of 24 \<lparr>this_r = [2], this_s = [5], this_h = [0], this_buffer = Some (of_bytes [7])\<rparr> [1, 2, 3, 4])])"
proof -
  let ?hp = "\<lparr>arrays = [of_bytes [7], of_bytes [1, 2]], numbers = [[2], [5], [0]],
        contexts = [\<lparr>ref_r = 0, ref_s = 1, ref_h = 2, ref_buffer = Some 0\<rparr>]\<rparr>"
  let ?cs = "[Finalize, Update [1, 2, 3], Finalize, Update [4], Finalize]"
  have c: "the_context ?hp 0 = \<lparr>this_r = [2], this_s = [5], this_h = [0], this_buffer = Some (of_bytes [7])\<rparr>"
    by (simp add: the_context_def del: of_bytes.simps)
  have k: "context_ok ?hp 0"
    unfolding context_ok_def c
    by (simp add: buffer_ok_def to_bytes_of_bytes del: of_bytes.simps)
  have t: "1 < length (arrays ?hp)" by simp
  note w = finalize_verify_pure [OF _ k t, of 24 ?cs, unfolded c]
  have w1: "\<exists>t hp'. finalize_hp 24 0 ?hp = Some (t, hp')
        \<and> contexts hp' = [\<lparr>ref_r = 0, ref_s = 1, ref_h = 2, ref_buffer = Some 0\<rparr>]
        \<and> take 3 (numbers hp') = [[2], [5], [0]]
        \<and> take 2 (arrays hp') = [of_bytes [7], of_bytes [1, 2]]"
    using w [THEN conjunct1] by (simp add: numeral_2_eq_2 numeral_3_eq_3 del: of_bytes.simps) blast
  have w2: "\<exists>b hp'. verify_hp 24 0 1 ?hp = Some (b, hp')
        \<and> contexts hp' = [\<lparr>ref_r = 0, ref_s = 1, ref_h = 2, ref_buffer = Some 0\<rparr>]
        \<and> take 3 (numbers hp') = [[2], [5], [0]]
        \<and> take 2 (arrays hp') = [of_bytes [7], of_bytes [1, 2]]"
    using w [THEN conjunct2, THEN conjunct1] by (simp add: numeral_2_eq_2 numeral_3_eq_3 del: of_bytes.simps) blast
  have w3: "\<exists>as hp'. run_hp 24 0 ?cs ?hp = Some (as, hp')
        \<and> update 24 \<lparr>this_r = [2], this_s = [5], this_h = [0], this_buffer = Some (of_bytes [7])\<rparr>
             (of_bytes [1, 2, 3, 4]) = Some (the_context hp' 0)
        \<and> map Some as
           = [map_option Tag (tag_of 24 \<lparr>this_r = [2], this_s = [5], this_h = [0], this_buffer = Some (of_bytes [7])\<rparr> []),
              map_option Tag (tag_of 24 \<lparr>this_r = [2], this_s = [5], this_h = [0], this_buffer = Some (of_bytes [7])\<rparr> [1, 2, 3]),
              map_option Tag (tag_of 24 \<lparr>this_r = [2], this_s = [5], this_h = [0], this_buffer = Some (of_bytes [7])\<rparr> [1, 2, 3, 4])]"
    using w [THEN conjunct2, THEN conjunct2, THEN conjunct1]
    by (simp del: of_bytes.simps run_hp.simps)
  show ?thesis
    using k w1 w2 w3 by simp
qed

subsection \<open>A published vector\<close>

text \<open>
  The example of the Poly1305 specification (RFC 8439, section 2.5.2), run through the
  constructor, \<open>update\<close> and \<open>finalize\<close> as modelled, with the limb width of 24 bits:
  the message "Cryptographic Forum Research Group" under the published key gives the
  published tag.
\<close>

theorem rfc8439_vector:
  "map_sum id fst (poly1305_call_st 24 0 1
     [of_bytes [0x85, 0xd6, 0xbe, 0x78, 0x57, 0x55, 0x6d, 0x33, 0x7f, 0x44, 0x52, 0xfe, 0x42, 0xd5, 0x06, 0xa8,
                0x01, 0x03, 0x80, 0x8a, 0xfb, 0x0d, 0xb2, 0xfd, 0x4a, 0xbf, 0xf6, 0xaf, 0x41, 0x49, 0xf5, 0x1b],
      of_bytes [0x43, 0x72, 0x79, 0x70, 0x74, 0x6f, 0x67, 0x72, 0x61, 0x70, 0x68, 0x69, 0x63, 0x20, 0x46, 0x6f,
                0x72, 0x75, 0x6d, 0x20, 0x52, 0x65, 0x73, 0x65, 0x61, 0x72, 0x63, 0x68, 0x20, 0x47, 0x72, 0x6f,
                0x75, 0x70]])
   = Inr (Some (of_bytes [0xa8, 0x06, 0x1d, 0xc1, 0x30, 0x51, 0x36, 0xc6,
                          0xc2, 0x2b, 0x8b, 0xaf, 0x0c, 0x01, 0x27, 0xa9]))"
  by code_simp

end
